theory Spec2Isabelle
  imports Main "HOL-Library.Monad_Syntax"
begin

section \<open>Containers and cursors\<close>

text \<open>
  The scalar type \<open>T\<close> of the templates is a type variable \<open>'a\<close> of a ring class:
  arithmetic is exact. A \<open>std::vector\<close> is a list, and an iterator is a position in
  a list. Reading or writing through an iterator outside its container has no defined
  behaviour in the source; here it is the result \<open>None\<close>, so every function that
  dereferences returns an option. Distinct iterator arguments are taken to range over
  distinct containers.
\<close>

text \<open>
  \<open>size_type\<close> is \<open>std::size_t\<close>, taken 64 bits wide: a value of it is a \<open>nat\<close> below
  \<open>2 ^ 64\<close>, and the sums and products the source computes in it wrap around.
\<close>

definition wrap :: "nat \<Rightarrow> nat" where
  "wrap n = n mod 2 ^ 64"

definition deref :: "'a list \<Rightarrow> nat \<Rightarrow> 'a option" where
  "deref xs i = (if i < length xs then Some (xs ! i) else None)"

definition store :: "'a list \<Rightarrow> nat \<Rightarrow> 'a \<Rightarrow> 'a list option" where
  "store xs i v = (if i < length xs then Some (xs[i := v]) else None)"

text \<open>\<open>std::prev\<close> of a position; there is none before \<open>begin()\<close>.\<close>

definition prev_it :: "nat \<Rightarrow> nat option" where
  "prev_it i = (if i = 0 then None else Some (i - 1))"

text \<open>\<open>std::vector::resize\<close>: cut to \<open>s\<close> entries, or pad with the default value \<open>d\<close>.\<close>

definition resize :: "'a \<Rightarrow> 'a list \<Rightarrow> nat \<Rightarrow> 'a list" where
  "resize d xs s = take s xs @ replicate (s - length xs) d"

section \<open>Transfer functions\<close>

record 'a TransferFunction =
  transfer :: "'a \<Rightarrow> 'a"
  derivative :: "'a \<Rightarrow> 'a"
  inverse_fn :: "('a \<Rightarrow> 'a) option"

text \<open>The unit step: its third component is an empty \<open>std::function\<close>.\<close>

definition Heaviside :: "'a::{linorder,zero,one} TransferFunction" where
  "Heaviside =
     \<lparr>transfer = (\<lambda>x. if x \<ge> 0 then 1 else 0),
      derivative = (\<lambda>_. 1),
      inverse_fn = None\<rparr>"

section \<open>Layer\<close>

record 'a Layer =
  in_size :: nat
  out_size :: nat
  tf :: "'a TransferFunction"
  w :: "'a list"

definition Layer_Layer :: "nat \<Rightarrow> nat \<Rightarrow> 'a TransferFunction \<Rightarrow> 'a::zero Layer" where
  "Layer_Layer inputs outputs transfer_fn =
     \<lparr>in_size = inputs, out_size = outputs, tf = transfer_fn,
      w = replicate (wrap (wrap (inputs + 1) * outputs)) 0\<rparr>"

definition inputs :: "'a Layer \<Rightarrow> nat" where
  "inputs lay = in_size lay"

definition outputs :: "'a Layer \<Rightarrow> nat" where
  "outputs lay = out_size lay"

definition weights :: "'a Layer \<Rightarrow> nat" where
  "weights lay = length (w lay)"

text \<open>
  The positions that \<open>weight(in, out)\<close> and \<open>bias(out)\<close> hand to \<open>std::next\<close>,
  computed in \<open>size_type\<close>.
\<close>

definition weight_offset :: "'a Layer \<Rightarrow> nat \<Rightarrow> nat \<Rightarrow> nat" where
  "weight_offset lay inp out = wrap (wrap (wrap (out * wrap (1 + in_size lay)) + inp) + 1)"

definition bias_offset :: "'a Layer \<Rightarrow> nat \<Rightarrow> nat" where
  "bias_offset lay out = wrap (out * wrap (1 + in_size lay))"

definition weight :: "'a Layer \<Rightarrow> nat \<Rightarrow> nat \<Rightarrow> 'a option" where
  "weight lay inp out = deref (w lay) (weight_offset lay inp out)"

definition weight_at :: "'a Layer \<Rightarrow> nat \<Rightarrow> 'a option" where
  "weight_at lay i = deref (w lay) i"

definition bias :: "'a Layer \<Rightarrow> nat \<Rightarrow> 'a option" where
  "bias lay out = deref (w lay) (bias_offset lay out)"

subsection \<open>Layer::compute\<close>

text \<open>
  The inner loop of \<open>compute\<close>: \<open>in_iter\<close> stands at \<open>input + in_i\<close> throughout, so one
  counter serves for both. It returns the accumulated \<open>v\<close> and the advanced \<open>w_iter\<close>.
\<close>

function compute_inputs ::
  "nat \<Rightarrow> 'a::semiring_0 list \<Rightarrow> 'a list \<Rightarrow> nat \<Rightarrow> nat \<Rightarrow> 'a \<Rightarrow> ('a \<times> nat) option" where
  "compute_inputs n ws input in_i w_iter v =
     (if in_i < n then do {
        x \<leftarrow> deref input in_i;
        y \<leftarrow> deref ws w_iter;
        compute_inputs n ws input (Suc in_i) (Suc w_iter) (v + x * y)
      } else Some (v, w_iter))"
  by pat_completeness auto
termination
  by (relation "measure (\<lambda>(n, ws, input, in_i, w_iter, v). n - in_i)") auto

text \<open>The outer loop: \<open>output\<close> stands at its start plus \<open>out_i\<close>.\<close>

function compute_outputs ::
  "'a::semiring_0 Layer \<Rightarrow> 'a list \<Rightarrow> 'a list \<Rightarrow> nat \<Rightarrow> nat \<Rightarrow> 'a list option" where
  "compute_outputs lay input output out_i w_iter =
     (if out_i < out_size lay then do {
        b \<leftarrow> deref (w lay) w_iter;
        (v, w_iter') \<leftarrow> compute_inputs (in_size lay) (w lay) input 0 (Suc w_iter) b;
        output' \<leftarrow> store output out_i (transfer (tf lay) v);
        compute_outputs lay input output' (Suc out_i) w_iter'
      } else Some output)"
  by pat_completeness auto
termination
  by (relation "measure (\<lambda>(lay, input, output, out_i, w_iter). out_size lay - out_i)") auto

text \<open>
  \<open>compute\<close> is a const member and only reads \<open>input\<close>: the one thing it changes is
  the container behind \<open>output\<close>, which is what the model returns.
\<close>

definition Layer_compute :: "'a::semiring_0 Layer \<Rightarrow> 'a list \<Rightarrow> 'a list \<Rightarrow> 'a list option" where
  "Layer_compute lay input output = compute_outputs lay input output 0 0"

declare compute_inputs.simps [simp del] compute_outputs.simps [simp del]

subsection \<open>Layer::train\<close>

text \<open>The first loop of \<open>train\<close>: \<open>*back_iter++ = *in_iter++\<close>, \<open>in_size\<close> times.\<close>

function train_seed :: "nat \<Rightarrow> 'a list \<Rightarrow> 'a list \<Rightarrow> nat \<Rightarrow> 'a list option" where
  "train_seed n input back in_i =
     (if in_i < n then do {
        x \<leftarrow> deref input in_i;
        back' \<leftarrow> store back in_i x;
        train_seed n input back' (Suc in_i)
      } else Some back)"
  by pat_completeness auto
termination
  by (relation "measure (\<lambda>(n, input, back, in_i). n - in_i)") auto

text \<open>
  The loop over the inputs of one output unit. Its two statements run in the order of
  the source: the weight under \<open>w_iter\<close> is decreased first, and the value then read
  through \<open>w_iter\<close> for \<open>back\<close> is the stored one.
\<close>

function train_inputs ::
  "nat \<Rightarrow> 'a::ring \<Rightarrow> 'a \<Rightarrow> 'a list \<Rightarrow> 'a list \<Rightarrow> 'a list \<Rightarrow> nat \<Rightarrow> nat
     \<Rightarrow> ('a list \<times> 'a list \<times> nat) option" where
  "train_inputs n rate delta input ws back in_i w_iter =
     (if in_i < n then do {
        x \<leftarrow> deref input in_i;
        old \<leftarrow> deref ws w_iter;
        ws' \<leftarrow> store ws w_iter (old - rate * delta * x);
        b \<leftarrow> deref back in_i;
        new \<leftarrow> deref ws' w_iter;
        back' \<leftarrow> store back in_i (b - delta * new);
        train_inputs n rate delta input ws' back' (Suc in_i) (Suc w_iter)
      } else Some (ws, back, w_iter))"
  by pat_completeness auto
termination
  by (relation "measure (\<lambda>(n, rate, delta, input, ws, back, in_i, w_iter). n - in_i)") auto

text \<open>
  The loop over the output units; \<open>output\<close> and \<open>target\<close> both stand at their start
  plus \<open>out_i\<close>. The weight container and \<open>back\<close> are threaded through.
\<close>

function train_outputs ::
  "nat \<Rightarrow> nat \<Rightarrow> 'a TransferFunction \<Rightarrow> 'a::ring \<Rightarrow> 'a list \<Rightarrow> 'a list \<Rightarrow> 'a list
     \<Rightarrow> 'a list \<Rightarrow> 'a list \<Rightarrow> nat \<Rightarrow> nat \<Rightarrow> ('a list \<times> 'a list) option" where
  "train_outputs n m f rate input output target ws back out_i w_iter =
     (if out_i < m then do {
        y \<leftarrow> deref output out_i;
        t \<leftarrow> deref target out_i;
        let delta = derivative f y * (y - t);
        old \<leftarrow> deref ws w_iter;
        ws' \<leftarrow> store ws w_iter (old - rate * delta);
        (ws'', back', w_iter') \<leftarrow> train_inputs n rate delta input ws' back 0 (Suc w_iter);
        train_outputs n m f rate input output target ws'' back' (Suc out_i) w_iter'
      } else Some (ws, back))"
  by pat_completeness auto
termination
  by (relation "measure (\<lambda>(n, m, f, rate, input, output, target, ws, back, out_i, w_iter).
        m - out_i)") auto

text \<open>\<open>train\<close> changes the layer's weight container and the container behind \<open>back\<close>.\<close>

definition Layer_train ::
  "'a::ring Layer \<Rightarrow> 'a \<Rightarrow> 'a list \<Rightarrow> 'a list \<Rightarrow> 'a list \<Rightarrow> 'a list
     \<Rightarrow> ('a Layer \<times> 'a list) option" where
  "Layer_train lay rate input output target back = do {
     back0 \<leftarrow> train_seed (in_size lay) input back 0;
     (ws', back') \<leftarrow> train_outputs (in_size lay) (out_size lay) (tf lay) rate
                       input output target (w lay) back0 0 0;
     Some (lay\<lparr>w := ws'\<rparr>, back')
   }"

declare train_seed.simps [simp del] train_inputs.simps [simp del]
  train_outputs.simps [simp del]

section \<open>Scratch buffers\<close>

record 'a ComputeBuffer =
  A :: "'a list"
  B :: "'a list"

text \<open>
  \<open>beginA\<close> and \<open>beginB\<close> return \<open>begin()\<close> of the container they may have resized:
  the model returns the buffer, and the cursor is position 0 of its \<open>A\<close> or \<open>B\<close>.
\<close>

definition beginA :: "nat \<Rightarrow> 'a::zero ComputeBuffer \<Rightarrow> 'a ComputeBuffer" where
  "beginA s buf = (if length (A buf) < s then buf\<lparr>A := resize 0 (A buf) s\<rparr> else buf)"

definition beginB :: "nat \<Rightarrow> 'a::zero ComputeBuffer \<Rightarrow> 'a ComputeBuffer" where
  "beginB s buf = (if length (B buf) < s then buf\<lparr>B := resize 0 (B buf) s\<rparr> else buf)"

text \<open>A default-constructed \<open>ComputeBuffer\<close>, and the \<open>TrainBuffer\<close> vector of them.\<close>

definition empty_buffer :: "'a ComputeBuffer" where
  "empty_buffer = \<lparr>A = [], B = []\<rparr>"

type_synonym 'a TrainBuffer = "'a ComputeBuffer list"

section \<open>Network\<close>

record 'a Network =
  l :: "'a Layer list"

text \<open>The constructor's loop over \<open>nodes\<close>, appending one layer after the other.\<close>

fun emplace_layers ::
  "'a::zero Layer list \<Rightarrow> nat \<Rightarrow> nat list \<Rightarrow> 'a TransferFunction \<Rightarrow> 'a Layer list" where
  "emplace_layers ls prev [] f = ls"
| "emplace_layers ls prev (sz # nodes) f =
     emplace_layers (ls @ [Layer_Layer prev sz f]) sz nodes f"

definition Network_Network ::
  "nat \<Rightarrow> nat list \<Rightarrow> 'a TransferFunction \<Rightarrow> 'a::zero Network" where
  "Network_Network ins nodes f = \<lparr>l = emplace_layers [] ins nodes f\<rparr>"


subsection \<open>Network::compute\<close>

text \<open>\<open>b_iter\<close> is \<open>begin()\<close> of one of the two scratch containers.\<close>

datatype scratch = InA | InB

definition scratch_of :: "scratch \<Rightarrow> 'a ComputeBuffer \<Rightarrow> 'a list" where
  "scratch_of b buf = (case b of InA \<Rightarrow> A buf | InB \<Rightarrow> B buf)"

text \<open>
  The \<open>while (++l_iter != l_last)\<close> loop, with its \<open>break\<close>. Layer iterators are
  positions in \<open>l\<close>. It returns the iterators and the buffer as the loop leaves them.
\<close>

function compute_loop ::
  "'a::semiring_0 Layer list \<Rightarrow> nat \<Rightarrow> nat \<Rightarrow> scratch \<Rightarrow> 'a ComputeBuffer
     \<Rightarrow> (nat \<times> scratch \<times> 'a ComputeBuffer) option" where
  "compute_loop ls l_last l_iter b_iter buffer =
     (if Suc l_iter \<noteq> l_last then do {
        lay \<leftarrow> deref ls (Suc l_iter);
        let buffer1 = beginB (outputs lay) buffer;
        out \<leftarrow> Layer_compute lay (scratch_of b_iter buffer1) (B buffer1);
        let buffer2 = buffer1\<lparr>B := out\<rparr>;
        if Suc (Suc l_iter) = l_last then Some (Suc (Suc l_iter), InB, buffer2)
        else do {
          lay' \<leftarrow> deref ls (Suc (Suc l_iter));
          let buffer3 = beginA (outputs lay') buffer2;
          out' \<leftarrow> Layer_compute lay' (scratch_of InB buffer3) (A buffer3);
          compute_loop ls l_last (Suc (Suc l_iter)) InA (buffer3\<lparr>A := out'\<rparr>)
        }
      } else Some (Suc l_iter, b_iter, buffer))"
  by pat_completeness auto
termination
  by (relation "measure (\<lambda>(ls, l_last, l_iter, b_iter, buffer). length ls - l_iter)")
     (auto simp: deref_def split: if_splits)

text \<open>
  \<open>compute\<close> with a caller's buffer. \<open>--l.cend()\<close> needs a layer to step back to.
  The result is the container behind \<open>output\<close> and the buffer.
\<close>

definition Network_compute ::
  "'a::semiring_0 Network \<Rightarrow> 'a list \<Rightarrow> 'a list \<Rightarrow> 'a ComputeBuffer
     \<Rightarrow> ('a list \<times> 'a ComputeBuffer) option" where
  "Network_compute net input output buffer = do {
     l_last \<leftarrow> prev_it (length (l net));
     if 0 = l_last then do {
       lay \<leftarrow> deref (l net) 0;
       out \<leftarrow> Layer_compute lay input output;
       Some (out, buffer)
     } else do {
       lay \<leftarrow> deref (l net) 0;
       let buffer1 = beginA (outputs lay) buffer;
       out \<leftarrow> Layer_compute lay input (A buffer1);
       (l_iter, b_iter, buffer2) \<leftarrow> compute_loop (l net) l_last 0 InA (buffer1\<lparr>A := out\<rparr>);
       lay' \<leftarrow> deref (l net) l_iter;
       out' \<leftarrow> Layer_compute lay' (scratch_of b_iter buffer2) output;
       Some (out', buffer2)
     }
   }"

text \<open>\<open>compute\<close> without a buffer: a temporary one, dropped on return.\<close>

definition Network_compute_temp ::
  "'a::semiring_0 Network \<Rightarrow> 'a list \<Rightarrow> 'a list \<Rightarrow> 'a list option" where
  "Network_compute_temp net input output =
     map_option fst (Network_compute net input output empty_buffer)"

declare compute_loop.simps [simp del]

subsection \<open>Network::train\<close>

text \<open>
  The forward loop \<open>while (++l_iter != l_last)\<close> of \<open>train\<close>, where \<open>l_last\<close> is
  \<open>l.end()\<close>: layer \<open>l_iter\<close> reads slot \<open>b_iter\<close>'s \<open>A\<close> and writes the next slot's.
\<close>

function train_forward ::
  "'a::semiring_0 Layer list \<Rightarrow> nat \<Rightarrow> nat \<Rightarrow> nat \<Rightarrow> 'a TrainBuffer
     \<Rightarrow> (nat \<times> nat \<times> 'a TrainBuffer) option" where
  "train_forward ls l_last l_iter b_iter buffer =
     (if Suc l_iter \<noteq> l_last then do {
        lay \<leftarrow> deref ls (Suc l_iter);
        cur \<leftarrow> deref buffer b_iter;
        nxt \<leftarrow> deref buffer (Suc b_iter);
        let nxt1 = beginA (outputs lay) nxt;
        out \<leftarrow> Layer_compute lay (A cur) (A nxt1);
        buffer' \<leftarrow> store buffer (Suc b_iter) (nxt1\<lparr>A := out\<rparr>);
        train_forward ls l_last (Suc l_iter) (Suc b_iter) buffer'
      } else Some (Suc l_iter, b_iter, buffer))"
  by pat_completeness auto
termination
  by (relation "measure (\<lambda>(ls, l_last, l_iter, b_iter, buffer). length ls - l_iter)")
     (auto simp: deref_def split: if_splits)

text \<open>
  One \<open>l_iter->train(rate, input, b_iter->A.begin(), target, b_iter->beginB(...))\<close>
  call: slot \<open>b_iter\<close> supplies the layer's stored output and receives \<open>back\<close>; the
  trained layer replaces the one at \<open>l_iter\<close>.
\<close>

definition train_call ::
  "'a::ring Layer list \<Rightarrow> 'a TrainBuffer \<Rightarrow> nat \<Rightarrow> nat \<Rightarrow> 'a \<Rightarrow> 'a list \<Rightarrow> 'a list
     \<Rightarrow> ('a Layer list \<times> 'a TrainBuffer) option" where
  "train_call ls buffer l_iter b_iter rate input target = do {
     lay \<leftarrow> deref ls l_iter;
     slot \<leftarrow> deref buffer b_iter;
     let slot1 = beginB (inputs lay) slot;
     (lay', back) \<leftarrow> Layer_train lay rate input (A slot1) target (B slot1);
     ls' \<leftarrow> store ls l_iter lay';
     buffer' \<leftarrow> store buffer b_iter (slot1\<lparr>B := back\<rparr>);
     Some (ls', buffer')
   }"

text \<open>
  The backward loop \<open>while (--l_iter != l_iter)\<close>. The decrement returns the iterator
  itself, so the test compares \<open>l_iter\<close> with \<open>l_iter\<close>; the condition below is written
  as the source has it. The loop returns the iterators, the layers and the buffer as
  it leaves them.
\<close>

function train_backward ::
  "'a::ring Layer list \<Rightarrow> 'a TrainBuffer \<Rightarrow> nat \<Rightarrow> nat \<Rightarrow> 'a
     \<Rightarrow> (nat \<times> nat \<times> 'a Layer list \<times> 'a TrainBuffer) option" where
  "train_backward ls buffer l_iter b_iter rate = do {
     l_iter' \<leftarrow> prev_it l_iter;
     if l_iter' \<noteq> l_iter' then do {
       b_prev \<leftarrow> prev_it b_iter;
       prv \<leftarrow> deref buffer b_prev;
       nxt \<leftarrow> deref buffer (Suc b_iter);
       (ls', buffer') \<leftarrow> train_call ls buffer l_iter' b_iter rate (A prv) (B nxt);
       train_backward ls' buffer' l_iter' b_prev rate
     } else Some (l_iter', b_iter, ls, buffer)
   }"
  by pat_completeness auto
termination
  by (relation "measure (\<lambda>(ls, buffer, l_iter, b_iter, rate). l_iter)") auto

text \<open>
  \<open>train\<close> with a caller's buffer. After the forward loop \<open>l_iter\<close> is \<open>l.end()\<close> and is
  stepped back to the last layer; \<open>l_last\<close> becomes \<open>l.begin()\<close>. The result is the
  network with its trained layers, and the buffer.
\<close>

definition Network_train ::
  "'a::ring Network \<Rightarrow> 'a \<Rightarrow> 'a list \<Rightarrow> 'a list \<Rightarrow> 'a TrainBuffer
     \<Rightarrow> ('a Network \<times> 'a TrainBuffer) option" where
  "Network_train net rate input target buffer = do {
     let l_last = length (l net);
     let buffer0 = (if length buffer < length (l net)
                    then resize empty_buffer buffer (length (l net)) else buffer);
     lay \<leftarrow> deref (l net) 0;
     slot \<leftarrow> deref buffer0 0;
     let slot1 = beginA (outputs lay) slot;
     out \<leftarrow> Layer_compute lay input (A slot1);
     buffer1 \<leftarrow> store buffer0 0 (slot1\<lparr>A := out\<rparr>);
     (l_end, b_iter, buffer2) \<leftarrow> train_forward (l net) l_last 0 0 buffer1;
     l_iter \<leftarrow> prev_it l_end;
     if l_iter = 0 then do {
       (ls', buffer') \<leftarrow> train_call (l net) buffer2 l_iter b_iter rate input target;
       Some (net\<lparr>l := ls'\<rparr>, buffer')
     } else do {
       b_prev \<leftarrow> prev_it b_iter;
       prv \<leftarrow> deref buffer2 b_prev;
       (ls1, buffer3) \<leftarrow> train_call (l net) buffer2 l_iter b_iter rate (A prv) target;
       (l_iter', b_iter', ls2, buffer4) \<leftarrow> train_backward ls1 buffer3 l_iter b_prev rate;
       nxt \<leftarrow> deref buffer4 (Suc b_iter');
       (ls', buffer') \<leftarrow> train_call ls2 buffer4 l_iter' b_iter' rate input (B nxt);
       Some (net\<lparr>l := ls'\<rparr>, buffer')
     }
   }"

text \<open>\<open>train\<close> without a buffer: a temporary one, dropped on return.\<close>

definition Network_train_temp ::
  "'a::ring Network \<Rightarrow> 'a \<Rightarrow> 'a list \<Rightarrow> 'a list \<Rightarrow> 'a Network option" where
  "Network_train_temp net rate input target =
     map_option fst (Network_train net rate input target [])"

declare train_forward.simps [simp del] train_backward.simps [simp del]

section \<open>Shapes, closed forms and drivers\<close>

text \<open>
  The shape that the \<open>Layer\<close> constructor gives the weight container, and the
  chaining that the \<open>Network\<close> constructor gives consecutive layers.
\<close>

definition layer_ok :: "'a Layer \<Rightarrow> bool" where
  "layer_ok lay \<longleftrightarrow> weights lay = (in_size lay + 1) * out_size lay"

fun chained :: "'a Layer list \<Rightarrow> bool" where
  "chained [] = True"
| "chained [lay] = True"
| "chained (lay # nxt # rest) = (out_size lay = in_size nxt \<and> chained (nxt # rest))"

definition network_ok :: "'a Network \<Rightarrow> bool" where
  "network_ok net \<longleftrightarrow> l net \<noteq> [] \<and> list_all layer_ok (l net) \<and> chained (l net)"

text \<open>
  The layout of the weight container, in unbounded numbers: output unit \<open>out\<close> owns
  \<open>in_size + 1\<close> consecutive entries, its bias and then its weights in the order of
  the inputs. The loops of \<open>compute\<close> and \<open>train\<close> reach these entries by stepping
  \<open>w_iter\<close>.
\<close>

definition weight_index :: "'a Layer \<Rightarrow> nat \<Rightarrow> nat \<Rightarrow> nat" where
  "weight_index lay inp out = out * (1 + in_size lay) + inp + 1"

definition bias_index :: "'a Layer \<Rightarrow> nat \<Rightarrow> nat" where
  "bias_index lay out = out * (1 + in_size lay)"

text \<open>The \<open>delta\<close> that \<open>train\<close> computes for output unit \<open>out\<close>.\<close>

definition unit_delta :: "'a::ring TransferFunction \<Rightarrow> 'a list \<Rightarrow> 'a list \<Rightarrow> nat \<Rightarrow> 'a" where
  "unit_delta f outp target out = derivative f (outp ! out) * (outp ! out - target ! out)"

text \<open>
  The value \<open>train\<close> leaves at position \<open>j\<close> of the weight container: position \<open>j\<close>
  belongs to output unit \<open>j div (n + 1)\<close> and is its bias when \<open>j mod (n + 1) = 0\<close>.
\<close>

definition trained_weight ::
  "nat \<Rightarrow> 'a::ring TransferFunction \<Rightarrow> 'a \<Rightarrow> 'a list \<Rightarrow> 'a list \<Rightarrow> 'a list \<Rightarrow> 'a list
     \<Rightarrow> nat \<Rightarrow> 'a" where
  "trained_weight n f rate input outp target ws j =
     (if j mod (n + 1) = 0 then ws ! j - rate * unit_delta f outp target (j div (n + 1))
      else ws ! j - rate * unit_delta f outp target (j div (n + 1)) * input ! (j mod (n + 1) - 1))"

text \<open>The values \<open>compute\<close> writes, and their composition along a list of layers.\<close>

definition activations :: "'a::semiring_0 Layer \<Rightarrow> 'a list \<Rightarrow> 'a list" where
  "activations lay input =
     map (\<lambda>out. transfer (tf lay) (w lay ! bias_index lay out +
            (\<Sum>i<in_size lay. input ! i * w lay ! weight_index lay i out)))
       [0..<out_size lay]"

fun feed :: "'a::semiring_0 Layer list \<Rightarrow> 'a list \<Rightarrow> 'a list" where
  "feed [] x = x"
| "feed (lay # rest) x = feed rest (activations lay x)"

text \<open>
  Composing \<open>Layer::compute\<close> by hand, as the specification words it: every layer but
  the last writes a fresh intermediate buffer of its own output size, which the next
  layer reads; the last layer writes the caller's \<open>output\<close>.
\<close>

fun chain_compute :: "'a::semiring_0 Layer list \<Rightarrow> 'a list \<Rightarrow> 'a list \<Rightarrow> 'a list option" where
  "chain_compute [] input outp = None"
| "chain_compute [lay] input outp = Layer_compute lay input outp"
| "chain_compute (lay # nxt # rest) input outp = do {
     mid \<leftarrow> Layer_compute lay input (replicate (out_size lay) 0);
     chain_compute (nxt # rest) mid outp
   }"

text \<open>A sequence of \<open>compute\<close> and \<open>train\<close> calls on one layer.\<close>

datatype 'a layer_call =
  Compute "'a list" "'a list"
| Train 'a "'a list" "'a list" "'a list" "'a list"

fun Layer_calls :: "'a::ring Layer \<Rightarrow> 'a layer_call list \<Rightarrow> 'a Layer option" where
  "Layer_calls lay [] = Some lay"
| "Layer_calls lay (Compute input outp # calls) = do {
     _ \<leftarrow> Layer_compute lay input outp;
     Layer_calls lay calls
   }"
| "Layer_calls lay (Train rate input outp target bk # calls) = do {
     (lay', _) \<leftarrow> Layer_train lay rate input outp target bk;
     Layer_calls lay' calls
   }"





section \<open>The loops in closed form\<close>

lemma deref_Some [simp]: "i < length xs \<Longrightarrow> deref xs i = Some (xs ! i)"
  by (simp add: deref_def)

lemma store_Some [simp]: "i < length xs \<Longrightarrow> store xs i v = Some (xs[i := v])"
  by (simp add: store_def)

lemma compute_inputs_eq:
  "in_i + r = n \<Longrightarrow> n \<le> length input \<Longrightarrow> w_iter + r \<le> length ws \<Longrightarrow>
   compute_inputs n ws input in_i w_iter v =
     Some (v + (\<Sum>k<r. input ! (in_i + k) * ws ! (w_iter + k)), w_iter + r)"
proof (induction r arbitrary: in_i w_iter v)
  case 0
  then show ?case
    by (subst compute_inputs.simps) simp
next
  case (Suc r)
  from Suc.prems have "compute_inputs n ws input (Suc in_i) (Suc w_iter)
        (v + input ! in_i * ws ! w_iter) =
      Some (v + input ! in_i * ws ! w_iter +
              (\<Sum>k<r. input ! (Suc in_i + k) * ws ! (Suc w_iter + k)), Suc w_iter + r)"
    by (intro Suc.IH) auto
  with Suc.prems show ?case
    by (subst compute_inputs.simps)
       (simp add: sum.lessThan_Suc_shift add.assoc del: sum.lessThan_Suc)
qed

lemma compute_outputs_eq:
  assumes "length (w lay) = (in_size lay + 1) * out_size lay"
    and "in_size lay \<le> length input"
  shows "out_i + r = out_size lay \<Longrightarrow> out_size lay \<le> length outp \<Longrightarrow>
    compute_outputs lay input outp out_i (out_i * (in_size lay + 1)) =
     Some (take out_i outp @
           map (\<lambda>out. transfer (tf lay) (w lay ! bias_index lay out +
                  (\<Sum>i<in_size lay. input ! i * w lay ! weight_index lay i out)))
               [out_i..<out_size lay] @
           drop (out_size lay) outp)"
proof (induction r arbitrary: out_i outp)
  case 0
  then show ?case
    by (subst compute_outputs.simps) simp
next
  case (Suc r)
  let ?n = "in_size lay"
  let ?wi = "out_i * (?n + 1)"
  let ?v = "w lay ! bias_index lay out_i +
              (\<Sum>i<?n. input ! i * w lay ! weight_index lay i out_i)"
  have lt: "out_i < out_size lay" using Suc.prems by simp
  have wlt: "?wi + ?n < length (w lay)"
  proof -
    have "Suc out_i * (?n + 1) \<le> out_size lay * (?n + 1)"
      using lt by (intro mult_le_mono1) simp
    then show ?thesis using assms(1) by (simp add: mult.commute)
  qed
  have inner: "compute_inputs ?n (w lay) input 0 (Suc ?wi) (w lay ! ?wi) =
      Some (?v, Suc out_i * (?n + 1))"
    using wlt assms(2)
    by (subst compute_inputs_eq [where r = ?n])
       (auto simp: weight_index_def bias_index_def mult.commute add.commute)
  have rec: "compute_outputs lay input (outp[out_i := transfer (tf lay) ?v]) (Suc out_i)
        (Suc out_i * (?n + 1)) =
      Some (take (Suc out_i) (outp[out_i := transfer (tf lay) ?v]) @
           map (\<lambda>out. transfer (tf lay) (w lay ! bias_index lay out +
                  (\<Sum>i<in_size lay. input ! i * w lay ! weight_index lay i out)))
               [Suc out_i..<out_size lay] @
           drop (out_size lay) (outp[out_i := transfer (tf lay) ?v]))"
    using Suc.prems by (intro Suc.IH) auto
  have olt: "out_i < length outp" using lt Suc.prems by simp
  have tk: "take (Suc out_i) (outp[out_i := transfer (tf lay) ?v]) =
      take out_i outp @ [transfer (tf lay) ?v]"
    using olt by (simp add: take_Suc_conv_app_nth)
  have dr: "drop (out_size lay) (outp[out_i := transfer (tf lay) ?v]) = drop (out_size lay) outp"
    using lt by simp
  have "deref (w lay) ?wi = Some (w lay ! ?wi)" using wlt by simp
  then show ?case
    using lt olt inner rec
    by (subst compute_outputs.simps) (simp add: tk dr upt_conv_Cons del: upt_Suc)
qed

lemma train_seed_eq:
  "in_i + r = n \<Longrightarrow> n \<le> length input \<Longrightarrow> n \<le> length back \<Longrightarrow>
   train_seed n input back in_i =
     Some (take in_i back @ take r (drop in_i input) @ drop n back)"
proof (induction r arbitrary: in_i "back")
  case 0
  then show ?case
    by (subst train_seed.simps) simp
next
  case (Suc r)
  have lt: "in_i < n" "in_i < length input" "in_i < length back"
    using Suc.prems by auto
  have rec: "train_seed n input (back[in_i := input ! in_i]) (Suc in_i) =
      Some (take (Suc in_i) (back[in_i := input ! in_i]) @ take r (drop (Suc in_i) input) @
            drop n (back[in_i := input ! in_i]))"
    using Suc.prems by (intro Suc.IH) auto
  have tk: "take (Suc in_i) (back[in_i := input ! in_i]) = take in_i back @ [input ! in_i]"
    using lt by (simp add: take_Suc_conv_app_nth)
  have dr: "take (Suc r) (drop in_i input) = input ! in_i # take r (drop (Suc in_i) input)"
    using lt by (simp add: Cons_nth_drop_Suc [symmetric])
  show ?case
    using lt rec by (subst train_seed.simps) (simp add: tk dr)
qed

lemma train_inputs_eq:
  "in_i + r = n \<Longrightarrow> n \<le> length input \<Longrightarrow> n \<le> length back \<Longrightarrow>
   w_iter + r \<le> length ws \<Longrightarrow>
   train_inputs n rate delta input ws back in_i w_iter =
     Some (map (\<lambda>j. if w_iter \<le> j \<and> j < w_iter + r
                     then ws ! j - rate * delta * input ! (in_i + (j - w_iter)) else ws ! j)
             [0..<length ws],
           map (\<lambda>k. if in_i \<le> k \<and> k < n
                     then back ! k - delta * (ws ! (w_iter + (k - in_i)) - rate * delta * input ! k)
                     else back ! k)
             [0..<length back],
           w_iter + r)"
proof (induction r arbitrary: in_i w_iter ws "back")
  case 0
  then show ?case
    by (subst train_inputs.simps) (auto intro!: nth_equalityI)
next
  case (Suc r)
  let ?x = "input ! in_i"
  let ?new = "ws ! w_iter - rate * delta * ?x"
  let ?ws1 = "ws[w_iter := ?new]"
  let ?back1 = "back[in_i := back ! in_i - delta * ?new]"
  have lt: "in_i < n" "in_i < length input" "in_i < length back" "w_iter < length ws"
    using Suc.prems by auto
  have rec: "train_inputs n rate delta input ?ws1 ?back1 (Suc in_i) (Suc w_iter) =
     Some (map (\<lambda>j. if Suc w_iter \<le> j \<and> j < Suc w_iter + r
                     then ?ws1 ! j - rate * delta * input ! (Suc in_i + (j - Suc w_iter))
                     else ?ws1 ! j)
             [0..<length ?ws1],
           map (\<lambda>k. if Suc in_i \<le> k \<and> k < n
                     then ?back1 ! k -
                          delta * (?ws1 ! (Suc w_iter + (k - Suc in_i)) - rate * delta * input ! k)
                     else ?back1 ! k)
             [0..<length ?back1],
           Suc w_iter + r)"
    using Suc.prems by (intro Suc.IH) auto
  have ws_eq: "map (\<lambda>j. if Suc w_iter \<le> j \<and> j < Suc w_iter + r
                     then ?ws1 ! j - rate * delta * input ! (Suc in_i + (j - Suc w_iter))
                     else ?ws1 ! j) [0..<length ?ws1] =
      map (\<lambda>j. if w_iter \<le> j \<and> j < w_iter + Suc r
                     then ws ! j - rate * delta * input ! (in_i + (j - w_iter)) else ws ! j)
             [0..<length ws]"
  proof (rule nth_equalityI)
    fix j assume "j < length (map (\<lambda>j. if Suc w_iter \<le> j \<and> j < Suc w_iter + r
                     then ?ws1 ! j - rate * delta * input ! (Suc in_i + (j - Suc w_iter))
                     else ?ws1 ! j) [0..<length ?ws1])"
    then have j: "j < length ws" by simp
    consider "j < w_iter" | "j = w_iter" | "w_iter < j"
      by linarith
    then show "map (\<lambda>j. if Suc w_iter \<le> j \<and> j < Suc w_iter + r
                     then ?ws1 ! j - rate * delta * input ! (Suc in_i + (j - Suc w_iter))
                     else ?ws1 ! j) [0..<length ?ws1] ! j =
      map (\<lambda>j. if w_iter \<le> j \<and> j < w_iter + Suc r
                     then ws ! j - rate * delta * input ! (in_i + (j - w_iter)) else ws ! j)
             [0..<length ws] ! j"
    proof cases
      case 1
      then show ?thesis using j by simp
    next
      case 2
      then show ?thesis using j by simp
    next
      case 3
      then have "Suc in_i + (j - Suc w_iter) = in_i + (j - w_iter)" by simp
      then show ?thesis using j 3 by auto
    qed
  qed simp
  have back_eq: "map (\<lambda>k. if Suc in_i \<le> k \<and> k < n
                     then ?back1 ! k -
                          delta * (?ws1 ! (Suc w_iter + (k - Suc in_i)) - rate * delta * input ! k)
                     else ?back1 ! k)
             [0..<length ?back1] =
       map (\<lambda>k. if in_i \<le> k \<and> k < n
                     then back ! k - delta * (ws ! (w_iter + (k - in_i)) - rate * delta * input ! k)
                     else back ! k)
             [0..<length back]"
  proof (rule nth_equalityI)
    fix k assume "k < length (map (\<lambda>k. if Suc in_i \<le> k \<and> k < n
                     then ?back1 ! k -
                          delta * (?ws1 ! (Suc w_iter + (k - Suc in_i)) - rate * delta * input ! k)
                     else ?back1 ! k)
             [0..<length ?back1])"
    then have k: "k < length back" by simp
    consider "k < in_i" | "k = in_i" | "in_i < k"
      by linarith
    then show "map (\<lambda>k. if Suc in_i \<le> k \<and> k < n
                     then ?back1 ! k -
                          delta * (?ws1 ! (Suc w_iter + (k - Suc in_i)) - rate * delta * input ! k)
                     else ?back1 ! k)
             [0..<length ?back1] ! k =
       map (\<lambda>k. if in_i \<le> k \<and> k < n
                     then back ! k - delta * (ws ! (w_iter + (k - in_i)) - rate * delta * input ! k)
                     else back ! k)
             [0..<length back] ! k"
    proof cases
      case 1
      then show ?thesis using k by simp
    next
      case 2
      then show ?thesis using k lt by simp
    next
      case 3
      then have "Suc w_iter + (k - Suc in_i) = w_iter + (k - in_i)"
        and "Suc w_iter + (k - Suc in_i) \<noteq> w_iter" by simp_all
      then show ?thesis using k 3 by auto
    qed
  qed simp
  show ?case
    using lt rec unfolding ws_eq back_eq
    by (subst train_inputs.simps) simp
qed

lemma block_div_mod:
  fixes n :: nat
  assumes "k * (n + 1) \<le> j" and "j < k * (n + 1) + (n + 1)"
  shows "j div (n + 1) = k" and "j mod (n + 1) = j - k * (n + 1)"
proof -
  obtain d where d: "j = d + k * (n + 1)" "d < n + 1"
    using assms by (metis add.commute le_Suc_ex nat_add_left_cancel_less)
  show "j div (n + 1) = k" using d by (simp del: mult_Suc_right)
  show "j mod (n + 1) = j - k * (n + 1)" using d by (simp del: mult_Suc_right)
qed

lemma train_outputs_eq:
  fixes rate :: "'a::ring"
  assumes "n \<le> length input" and "m \<le> length outp" and "m \<le> length target"
  shows "out_i + r = m \<Longrightarrow> length ws = (n + 1) * m \<Longrightarrow> n \<le> length bk \<Longrightarrow>
    train_outputs n m f rate input outp target ws bk out_i (out_i * (n + 1)) =
      Some (map (\<lambda>j. if out_i * (n + 1) \<le> j
                      then trained_weight n f rate input outp target ws j else ws ! j)
              [0..<length ws],
            map (\<lambda>k. if k < n
                      then bk ! k - (\<Sum>out = out_i..<m. unit_delta f outp target out *
                             (ws ! (out * (n + 1) + k + 1) -
                              rate * unit_delta f outp target out * input ! k))
                      else bk ! k)
              [0..<length bk])"
proof (induction r arbitrary: out_i ws bk)
  case 0
  then have "out_i = m" by simp
  moreover have "map (\<lambda>j. if m * (n + 1) \<le> j
                      then trained_weight n f rate input outp target ws j else ws ! j)
              [0..<length ws] = ws"
    using 0 by (auto intro!: nth_equalityI simp: mult.commute)
  moreover have "map (\<lambda>k. if k < n
                      then bk ! k - (\<Sum>out = m..<m. unit_delta f outp target out *
                             (ws ! (out * (n + 1) + k + 1) -
                              rate * unit_delta f outp target out * input ! k))
                      else bk ! k)
              [0..<length bk] = bk"
    by (auto intro!: nth_equalityI)
  ultimately show ?case
    by (subst train_outputs.simps) (simp only: if_False less_irrefl)
next
  case (Suc r)
  let ?wi = "out_i * (n + 1)"
  let ?d = "unit_delta f outp target out_i"
  let ?ws1 = "ws[?wi := ws ! ?wi - rate * ?d]"
  let ?ws2 = "map (\<lambda>j. if Suc ?wi \<le> j \<and> j < Suc ?wi + n
                     then ?ws1 ! j - rate * ?d * input ! (0 + (j - Suc ?wi)) else ?ws1 ! j)
             [0..<length ?ws1]"
  let ?bk2 = "map (\<lambda>k. if 0 \<le> k \<and> k < n
                     then bk ! k - ?d * (?ws1 ! (Suc ?wi + (k - 0)) - rate * ?d * input ! k)
                     else bk ! k)
             [0..<length bk]"
  have lt: "out_i < m" using Suc.prems by simp
  have blk: "Suc out_i * (n + 1) \<le> length ws"
  proof -
    have "Suc out_i * (n + 1) \<le> m * (n + 1)"
      using lt by (intro mult_le_mono1) simp
    then show ?thesis using Suc.prems by (simp add: mult.commute)
  qed
  then have wlt: "?wi + n < length ws" by simp
  have inner: "train_inputs n rate ?d input ?ws1 bk 0 (Suc ?wi) = Some (?ws2, ?bk2, Suc ?wi + n)"
    using wlt assms Suc.prems by (intro train_inputs_eq) auto
  have ws2: "?ws2 ! j = (if ?wi \<le> j \<and> j < Suc ?wi + n
                then trained_weight n f rate input outp target ws j else ws ! j)"
    if "j < length ws" for j
  proof -
    consider "j < ?wi" | "j = ?wi" | "Suc ?wi \<le> j" "j < Suc ?wi + n" | "Suc ?wi + n \<le> j"
      by linarith
    then show ?thesis
    proof cases
      case 1
      then show ?thesis using that by simp
    next
      case 2
      then have "j mod (n + 1) = 0" "j div (n + 1) = out_i"
        by (simp_all del: mult_Suc_right)
      then show ?thesis using that 2 by (simp add: trained_weight_def)
    next
      case 3
      then have "?wi \<le> j" "j < ?wi + (n + 1)" by simp_all
      then have "j div (n + 1) = out_i" "j mod (n + 1) = j - ?wi"
        by (rule block_div_mod)+
      moreover have "j - ?wi - 1 = j - Suc ?wi" "j - ?wi \<noteq> 0" using 3 by auto
      ultimately show ?thesis using that 3
        by (simp add: trained_weight_def del: mult_Suc_right)
    next
      case 4
      then show ?thesis using that by simp
    qed
  qed
  have rec: "train_outputs n m f rate input outp target ?ws2 ?bk2 (Suc out_i)
        (Suc out_i * (n + 1)) =
      Some (map (\<lambda>j. if Suc out_i * (n + 1) \<le> j
                      then trained_weight n f rate input outp target ?ws2 j else ?ws2 ! j)
              [0..<length ?ws2],
            map (\<lambda>k. if k < n
                      then ?bk2 ! k - (\<Sum>out = Suc out_i..<m. unit_delta f outp target out *
                             (?ws2 ! (out * (n + 1) + k + 1) -
                              rate * unit_delta f outp target out * input ! k))
                      else ?bk2 ! k)
              [0..<length ?bk2])"
    using Suc.prems by (intro Suc.IH) auto
  have ws_eq: "map (\<lambda>j. if Suc out_i * (n + 1) \<le> j
                      then trained_weight n f rate input outp target ?ws2 j else ?ws2 ! j)
              [0..<length ?ws2] =
      map (\<lambda>j. if out_i * (n + 1) \<le> j
                      then trained_weight n f rate input outp target ws j else ws ! j)
              [0..<length ws]"
  proof (rule nth_equalityI)
    fix j assume "j < length (map (\<lambda>j. if Suc out_i * (n + 1) \<le> j
                      then trained_weight n f rate input outp target ?ws2 j else ?ws2 ! j)
              [0..<length ?ws2])"
    then have j: "j < length ws" by simp
    have tw: "trained_weight n f rate input outp target ?ws2 j =
        trained_weight n f rate input outp target ws j" if "Suc out_i * (n + 1) \<le> j"
      using ws2 [OF j] that unfolding trained_weight_def by simp
    show "map (\<lambda>j. if Suc out_i * (n + 1) \<le> j
                      then trained_weight n f rate input outp target ?ws2 j else ?ws2 ! j)
              [0..<length ?ws2] ! j =
      map (\<lambda>j. if out_i * (n + 1) \<le> j
                      then trained_weight n f rate input outp target ws j else ws ! j)
              [0..<length ws] ! j"
    proof (cases "Suc out_i * (n + 1) \<le> j")
      case True
      then show ?thesis using j tw by simp
    next
      case False
      then show ?thesis using j ws2 [OF j] by simp
    qed
  qed simp
  have bk_eq: "map (\<lambda>k. if k < n
                      then ?bk2 ! k - (\<Sum>out = Suc out_i..<m. unit_delta f outp target out *
                             (?ws2 ! (out * (n + 1) + k + 1) -
                              rate * unit_delta f outp target out * input ! k))
                      else ?bk2 ! k)
              [0..<length ?bk2] =
       map (\<lambda>k. if k < n
                      then bk ! k - (\<Sum>out = out_i..<m. unit_delta f outp target out *
                             (ws ! (out * (n + 1) + k + 1) -
                              rate * unit_delta f outp target out * input ! k))
                      else bk ! k)
              [0..<length bk]"
  proof (rule nth_equalityI)
    fix k assume "k < length (map (\<lambda>k. if k < n
                      then ?bk2 ! k - (\<Sum>out = Suc out_i..<m. unit_delta f outp target out *
                             (?ws2 ! (out * (n + 1) + k + 1) -
                              rate * unit_delta f outp target out * input ! k))
                      else ?bk2 ! k)
              [0..<length ?bk2])"
    then have k: "k < length bk" by simp
    show "map (\<lambda>k. if k < n
                      then ?bk2 ! k - (\<Sum>out = Suc out_i..<m. unit_delta f outp target out *
                             (?ws2 ! (out * (n + 1) + k + 1) -
                              rate * unit_delta f outp target out * input ! k))
                      else ?bk2 ! k)
              [0..<length ?bk2] ! k =
       map (\<lambda>k. if k < n
                      then bk ! k - (\<Sum>out = out_i..<m. unit_delta f outp target out *
                             (ws ! (out * (n + 1) + k + 1) -
                              rate * unit_delta f outp target out * input ! k))
                      else bk ! k)
              [0..<length bk] ! k"
    proof (cases "k < n")
      case True
      have later: "?ws2 ! (out * (n + 1) + k + 1) = ws ! (out * (n + 1) + k + 1)"
        if "out \<in> {Suc out_i..<m}" for out
      proof -
        have a: "Suc out_i * (n + 1) \<le> out * (n + 1)"
          using that by (intro mult_le_mono1) simp
        have "Suc out * (n + 1) \<le> m * (n + 1)"
          using that by (intro mult_le_mono1) simp
        then have b: "out * (n + 1) + k + 1 < length ws"
          using True Suc.prems by (simp add: mult.commute)
        show ?thesis using ws2 [OF b] a by simp
      qed
      have first: "?ws1 ! (Suc ?wi + (k - 0)) = ws ! (out_i * (n + 1) + k + 1)"
        using wlt by simp
      have "(\<Sum>out = Suc out_i..<m. unit_delta f outp target out *
                             (?ws2 ! (out * (n + 1) + k + 1) -
                              rate * unit_delta f outp target out * input ! k)) =
            (\<Sum>out = Suc out_i..<m. unit_delta f outp target out *
                             (ws ! (out * (n + 1) + k + 1) -
                              rate * unit_delta f outp target out * input ! k))"
        by (rule sum.cong) (simp_all only: later)
      then show ?thesis
        using k True lt first
        by (simp add: sum.atLeast_Suc_lessThan diff_diff_eq del: mult_Suc)
    next
      case False
      then show ?thesis using k by simp
    qed
  qed simp
  have d1: "deref outp out_i = Some (outp ! out_i)" and d2: "deref target out_i = Some (target ! out_i)"
    using lt assms by simp_all
  have d3: "deref ws ?wi = Some (ws ! ?wi)"
    and d4: "store ws ?wi (ws ! ?wi - rate * ?d) = Some ?ws1"
    using wlt by simp_all
  have dd: "derivative f (outp ! out_i) * (outp ! out_i - target ! out_i) = ?d"
    by (simp add: unit_delta_def)
  have inner': "train_inputs n rate ?d input ?ws1 bk 0 (Suc ?wi) =
      Some (?ws2, ?bk2, Suc out_i * (n + 1))"
    using inner by simp
  show ?case
    by (subst train_outputs.simps)
       (simp only: lt if_True d1 d2 d3 d4 dd Option.bind.simps Let_def inner' prod.case rec
          ws_eq bk_eq)
qed

lemma Layer_compute_eq:
  assumes "layer_ok lay" and "in_size lay \<le> length input" and "out_size lay \<le> length outp"
  shows "Layer_compute lay input outp = Some (activations lay input @ drop (out_size lay) outp)"
  using compute_outputs_eq [of lay input 0 "out_size lay" outp] assms
  by (simp add: Layer_compute_def activations_def layer_ok_def weights_def)

lemma Layer_train_eq:
  fixes rate :: "'a::ring"
  assumes "layer_ok lay" and "in_size lay \<le> length input" and "out_size lay \<le> length outp"
    and "out_size lay \<le> length target" and "in_size lay \<le> length bk"
  shows "Layer_train lay rate input outp target bk =
    Some (lay\<lparr>w := map (trained_weight (in_size lay) (tf lay) rate input outp target (w lay))
                      [0..<length (w lay)]\<rparr>,
          map (\<lambda>k. if k < in_size lay
                    then input ! k - (\<Sum>out<out_size lay. unit_delta (tf lay) outp target out *
                           (w lay ! weight_index lay k out -
                            rate * unit_delta (tf lay) outp target out * input ! k))
                    else bk ! k)
            [0..<length bk])"
proof -
  let ?n = "in_size lay" and ?m = "out_size lay"
  let ?bk0 = "take ?n input @ drop ?n bk"
  have seed: "train_seed ?n input bk 0 = Some ?bk0"
    using train_seed_eq [of 0 ?n ?n input bk] assms by simp
  have len0: "length ?bk0 = length bk" using assms by simp
  have loop: "train_outputs ?n ?m (tf lay) rate input outp target (w lay) ?bk0 0 (0 * (?n + 1)) =
      Some (map (\<lambda>j. if 0 * (?n + 1) \<le> j
                      then trained_weight ?n (tf lay) rate input outp target (w lay) j
                      else w lay ! j)
              [0..<length (w lay)],
            map (\<lambda>k. if k < ?n
                      then ?bk0 ! k - (\<Sum>out = 0..<?m. unit_delta (tf lay) outp target out *
                             (w lay ! (out * (?n + 1) + k + 1) -
                              rate * unit_delta (tf lay) outp target out * input ! k))
                      else ?bk0 ! k)
              [0..<length ?bk0])"
    using assms by (intro train_outputs_eq) (simp_all add: layer_ok_def weights_def)
  have bk_eq: "map (\<lambda>k. if k < ?n
                      then ?bk0 ! k - (\<Sum>out = 0..<?m. unit_delta (tf lay) outp target out *
                             (w lay ! (out * (?n + 1) + k + 1) -
                              rate * unit_delta (tf lay) outp target out * input ! k))
                      else ?bk0 ! k)
              [0..<length ?bk0] =
          map (\<lambda>k. if k < in_size lay
                    then input ! k - (\<Sum>out<out_size lay. unit_delta (tf lay) outp target out *
                           (w lay ! weight_index lay k out -
                            rate * unit_delta (tf lay) outp target out * input ! k))
                    else bk ! k)
            [0..<length bk]"
    using assms
    by (intro nth_equalityI)
       (auto simp: nth_append weight_index_def atLeast0LessThan add.commute mult.commute)
  show ?thesis
    using seed loop unfolding bk_eq
    by (simp add: Layer_train_def)
qed

lemma trained_weight_bias:
  "trained_weight (in_size lay) f rate input outp target ws (bias_index lay out) =
     ws ! bias_index lay out - rate * unit_delta f outp target out"
  by (simp add: trained_weight_def bias_index_def del: mult_Suc_right)

lemma trained_weight_weight:
  assumes "i < in_size lay"
  shows "trained_weight (in_size lay) f rate input outp target ws (weight_index lay i out) =
     ws ! weight_index lay i out - rate * unit_delta f outp target out * input ! i"
proof -
  let ?n = "in_size lay"
  let ?j = "weight_index lay i out"
  have "out * (?n + 1) \<le> ?j" "?j < out * (?n + 1) + (?n + 1)"
    using assms by (simp_all add: weight_index_def)
  then have "?j div (?n + 1) = out" "?j mod (?n + 1) = ?j - out * (?n + 1)"
    by (rule block_div_mod)+
  moreover have "?j - out * (?n + 1) = i + 1"
    by (simp add: weight_index_def)
  ultimately show ?thesis
    by (simp add: trained_weight_def)
qed

lemma index_in_range:
  fixes out m n i :: nat
  assumes "out < m"
  shows "out * (1 + n) < (n + 1) * m" and "i < n \<Longrightarrow> out * (1 + n) + i + 1 < (n + 1) * m"
proof -
  have "Suc out * (n + 1) \<le> m * (n + 1)"
    using assms by (intro mult_le_mono1) simp
  then show "out * (1 + n) < (n + 1) * m" and "i < n \<Longrightarrow> out * (1 + n) + i + 1 < (n + 1) * m"
    by (simp_all add: mult.commute)
qed

lemma train_inputs_length:
  "train_inputs n rate delta input ws bk in_i w_iter = Some (ws', bk', wi') \<Longrightarrow>
   length ws' = length ws \<and> length bk' = length bk"
proof (induction n rate delta input ws bk in_i w_iter arbitrary: ws' bk' wi'
    rule: train_inputs.induct)
  case (1 n rate delta input ws bk in_i w_iter)
  show ?case
  proof (cases "in_i < n")
    case True
    with "1.prems" obtain x old ws1 b new bk1 where
      s: "deref input in_i = Some x" "deref ws w_iter = Some old"
         "store ws w_iter (old - rate * delta * x) = Some ws1"
         "deref bk in_i = Some b" "deref ws1 w_iter = Some new"
         "store bk in_i (b - delta * new) = Some bk1"
      and r: "train_inputs n rate delta input ws1 bk1 (Suc in_i) (Suc w_iter) = Some (ws', bk', wi')"
      by (subst (asm) train_inputs.simps) (auto split: bind_splits)
    from "1.IH" [OF True s r] have "length ws' = length ws1 \<and> length bk' = length bk1" .
    moreover from s have "length ws1 = length ws" "length bk1 = length bk"
      by (auto simp: store_def split: if_splits)
    ultimately show ?thesis by simp
  next
    case False
    with "1.prems" show ?thesis
      by (subst (asm) train_inputs.simps) simp
  qed
qed

lemma train_outputs_length:
  "train_outputs n m f rate input outp target ws bk out_i w_iter = Some (ws', bk') \<Longrightarrow>
   length ws' = length ws \<and> length bk' = length bk"
proof (induction n m f rate input outp target ws bk out_i w_iter arbitrary: ws' bk'
    rule: train_outputs.induct)
  case (1 n m f rate input outp target ws bk out_i w_iter)
  show ?case
  proof (cases "out_i < m")
    case True
    with "1.prems" obtain y t old ws1 ws2 bk2 wi2 where
      s: "deref outp out_i = Some y" "deref target out_i = Some t"
         "deref ws w_iter = Some old"
         "store ws w_iter (old - rate * (derivative f y * (y - t))) = Some ws1"
      and i: "train_inputs n rate (derivative f y * (y - t)) input ws1 bk 0 (Suc w_iter) =
         Some (ws2, bk2, wi2)"
      and r: "train_outputs n m f rate input outp target ws2 bk2 (Suc out_i) wi2 = Some (ws', bk')"
      by (subst (asm) train_outputs.simps) (auto split: bind_splits simp: Let_def)
    have "length ws' = length ws2 \<and> length bk' = length bk2"
      by (rule "1.IH" [OF True s(1) s(2) refl s(3) s(4) _ refl refl r]) (simp add: i)
    moreover from train_inputs_length [OF i] have "length ws2 = length ws1" "length bk2 = length bk"
      by simp_all
    moreover from s have "length ws1 = length ws"
      by (auto simp: store_def split: if_splits)
    ultimately show ?thesis by simp
  next
    case False
    with "1.prems" show ?thesis
      by (subst (asm) train_outputs.simps) simp
  qed
qed

lemma Layer_train_shape:
  assumes "Layer_train lay rate input outp target bk = Some (lay', bk')"
  shows "in_size lay' = in_size lay" and "out_size lay' = out_size lay"
    and "tf lay' = tf lay" and "weights lay' = weights lay"
proof -
  from assms obtain bk0 ws' where
    s: "train_seed (in_size lay) input bk 0 = Some bk0"
    and t: "train_outputs (in_size lay) (out_size lay) (tf lay) rate input outp target (w lay)
       bk0 0 0 = Some (ws', bk')"
    and l: "lay' = lay\<lparr>w := ws'\<rparr>"
    by (auto simp: Layer_train_def split: bind_splits)
  from l show "in_size lay' = in_size lay" "out_size lay' = out_size lay" "tf lay' = tf lay"
    by simp_all
  from l train_outputs_length [OF t] show "weights lay' = weights lay"
    by (simp add: weights_def)
qed

lemma Layer_calls_shape:
  "Layer_calls lay calls = Some lay' \<Longrightarrow>
   in_size lay' = in_size lay \<and> out_size lay' = out_size lay \<and> weights lay' = weights lay"
proof (induction lay calls rule: Layer_calls.induct)
  case (1 lay)
  then show ?case by simp
next
  case (2 lay input outp calls)
  then show ?case by (auto split: bind_splits)
next
  case (3 lay rate input outp target bk calls)
  from "3.prems" obtain lay1 bk1 where
    t: "Layer_train lay rate input outp target bk = Some (lay1, bk1)"
    and r: "Layer_calls lay1 calls = Some lay'"
    by (auto split: bind_splits)
  from "3.IH" [OF t refl r] Layer_train_shape [OF t] show ?case by simp
qed

lemma weight_index_inj:
  fixes n i i' out out' :: nat
  assumes "i < n" and "i' < n" and "out * (n + 1) + i + 1 = out' * (n + 1) + i' + 1"
  shows "i = i' \<and> out = out'"
proof -
  let ?j = "out * (n + 1) + i + 1"
  have "out * (n + 1) \<le> ?j" "?j < out * (n + 1) + (n + 1)"
    using assms(1) by simp_all
  then have a: "?j div (n + 1) = out" "?j mod (n + 1) = ?j - out * (n + 1)"
    by (rule block_div_mod)+
  have "out' * (n + 1) \<le> ?j" "?j < out' * (n + 1) + (n + 1)"
    using assms(2,3) by simp_all
  then have b: "?j div (n + 1) = out'" "?j mod (n + 1) = ?j - out' * (n + 1)"
    by (rule block_div_mod)+
  from a(1) b(1) have o: "out = out'" by simp
  with assms(3) have "i = i'" by simp
  with o show ?thesis by simp
qed

lemma bias_weight_distinct:
  fixes n i out out' :: nat
  assumes "i < n"
  shows "out * (n + 1) + i + 1 \<noteq> out' * (n + 1)"
proof
  assume "out * (n + 1) + i + 1 = out' * (n + 1)"
  then have "(i + 1 + out * (n + 1)) mod (n + 1) = (out' * (n + 1)) mod (n + 1)"
    by (simp only: ac_simps)
  with assms show False
    by (simp del: mult_Suc_right)
qed

lemma wrap_small [simp]: "n < 2 ^ 64 \<Longrightarrow> wrap n = n"
  by (simp add: wrap_def)

lemma Layer_Layer_no_wrap:
  assumes "(ins + 1) * outs < 2 ^ 64"
  shows "Layer_Layer ins outs f =
     \<lparr>in_size = ins, out_size = outs, tf = f, w = replicate ((ins + 1) * outs) 0\<rparr>"
proof (cases "outs = 0")
  case True
  then show ?thesis by (simp add: Layer_Layer_def wrap_def)
next
  case False
  then have "(ins + 1) * 1 \<le> (ins + 1) * outs" by (intro mult_le_mono2) simp
  with assms have "ins + 1 < 2 ^ 64" by simp
  with assms show ?thesis by (simp add: Layer_Layer_def)
qed

lemma Layer_Layer_unit:
  "Layer_Layer 1 1 f = \<lparr>in_size = 1, out_size = 1, tf = f, w = [0, 0]\<rparr>"
  by (simp add: Layer_Layer_def wrap_def)

lemma Network_Network_units:
  "Network_Network 1 [1, 1, 1] f =
     \<lparr>l = [\<lparr>in_size = 1, out_size = 1, tf = f, w = [0, 0]\<rparr>,
          \<lparr>in_size = 1, out_size = 1, tf = f, w = [0, 0]\<rparr>,
          \<lparr>in_size = 1, out_size = 1, tf = f, w = [0, 0]\<rparr>]\<rparr>"
  by (simp add: Network_Network_def Layer_Layer_def wrap_def)

lemma offsets_no_wrap:
  assumes "(in_size lay + 1) * m < 2 ^ 64" and "out < m"
  shows "bias_offset lay out = bias_index lay out"
    and "i < in_size lay \<Longrightarrow> weight_offset lay i out = weight_index lay i out"
proof -
  let ?n = "in_size lay"
  have "(?n + 1) * 1 \<le> (?n + 1) * m" using assms(2) by (intro mult_le_mono2) simp
  with assms(1) have n: "1 + ?n < 2 ^ 64" by simp
  have b: "out * (1 + ?n) < (?n + 1) * m"
    using index_in_range(1) [OF assms(2)] .
  from b assms(1) have b': "out * (1 + ?n) < 2 ^ 64" by (rule less_trans)
  show "bias_offset lay out = bias_index lay out"
    using n b' by (simp add: bias_offset_def bias_index_def)
  show "weight_offset lay i out = weight_index lay i out" if "i < ?n"
  proof -
    have "out * (1 + ?n) + i + 1 < (?n + 1) * m"
      using index_in_range(2) [OF assms(2) that] .
    from this assms(1) have "out * (1 + ?n) + i + 1 < 2 ^ 64" by (rule less_trans)
    then have "out * (1 + ?n) + i < 2 ^ 64" by simp
    with n b' \<open>out * (1 + ?n) + i + 1 < 2 ^ 64\<close> show ?thesis
      by (simp add: weight_offset_def weight_index_def)
  qed
qed

section \<open>Claims about the transfer functions and the layer\<close>

text \<open>
  Claim C9. The transfer function of the Heaviside preset returns 1 for every
  \<open>x \<ge> 0\<close>, zero itself included, and 0 for every \<open>x < 0\<close>.
\<close>

theorem Heaviside_transfer:
  fixes x y :: "'a::{linorder,zero,one}"
  assumes "0 \<le> x" and "y < 0"
  shows "transfer Heaviside x = 1 \<and> transfer Heaviside y = 0 \<and>
         transfer Heaviside (0::'a) = 1"
  using assms by (auto simp add: Heaviside_def dest: leD)

theorem Heaviside_transfer_witness:
  "(0::int) \<le> 0 \<and> (- 1::int) < 0 \<and>
   transfer Heaviside (0::int) = 1 \<and> transfer Heaviside (- 1::int) = 0"
  using Heaviside_transfer [of "0::int" "- 1"] by simp

text \<open>
  Claim C3. For a layer with \<open>in_size\<close> inputs and \<open>out_size\<close> outputs and an input
  of \<open>in_size\<close> entries, \<open>Layer::compute\<close> writes, for the output units
  \<open>0, \<dots>, out_size - 1\<close> in this order, the transfer function applied to the bias of
  the unit plus the sum over the inputs of input times weight; the entries of the
  output container after these are kept. The weight container and the input are not
  among the things the function returns: it reads them only.
\<close>

theorem Layer_compute_spec:
  assumes "weights lay = (in_size lay + 1) * out_size lay"
    and "length input = in_size lay"
    and "out_size lay \<le> length outp"
  shows "Layer_compute lay input outp =
     Some (map (\<lambda>out. transfer (tf lay) (w lay ! bias_index lay out +
                  (\<Sum>i<in_size lay. input ! i * w lay ! weight_index lay i out)))
             [0..<out_size lay] @
           drop (out_size lay) outp)"
  using Layer_compute_eq [of lay input outp] assms
  by (simp add: layer_ok_def activations_def)

theorem Layer_compute_spec_witness:
  "weights \<lparr>in_size = 2, out_size = 2, tf = Heaviside, w = [1, 2, 3, - 7, 1, 1 :: int]\<rparr> =
     (in_size \<lparr>in_size = 2, out_size = 2, tf = Heaviside, w = [1, 2, 3, - 7, 1, 1 :: int]\<rparr> + 1) *
     out_size \<lparr>in_size = 2, out_size = 2, tf = Heaviside, w = [1, 2, 3, - 7, 1, 1 :: int]\<rparr> \<and>
   length [1, 1 :: int] =
     in_size \<lparr>in_size = 2, out_size = 2, tf = Heaviside, w = [1, 2, 3, - 7, 1, 1 :: int]\<rparr> \<and>
   out_size \<lparr>in_size = 2, out_size = 2, tf = Heaviside, w = [1, 2, 3, - 7, 1, 1 :: int]\<rparr>
     \<le> length [9, 9, 9 :: int] \<and>
   Layer_compute \<lparr>in_size = 2, out_size = 2, tf = Heaviside, w = [1, 2, 3, - 7, 1, 1 :: int]\<rparr>
     [1, 1] [9, 9, 9] = Some [1, 0, 9]"
  using Layer_compute_spec
    [of "\<lparr>in_size = 2, out_size = 2, tf = Heaviside, w = [1, 2, 3, - 7, 1, 1 :: int]\<rparr>"
        "[1, 1]" "[9, 9, 9]"]
  by (simp add: weights_def bias_index_def weight_index_def Heaviside_def
        eval_nat_numeral lessThan_Suc upt_conv_Cons)

text \<open>
  Claim C4. In every \<open>train\<close> call, \<open>back[0..in_size-1]\<close> is seeded with a copy of
  \<open>input\<close> before the loop over the output units runs; then, for each output unit,
  \<open>delta\<close> is the derivative at \<open>output[o]\<close> times \<open>output[o] - target[o]\<close>, the bias
  of the unit is decreased by \<open>rate * delta\<close>, and the weight from each input \<open>i\<close> by
  \<open>rate * delta * input[i]\<close>.
\<close>

theorem Layer_train_updates:
  fixes rate :: "'a::ring"
  assumes "weights lay = (in_size lay + 1) * out_size lay"
    and "in_size lay \<le> length input"
    and "out_size lay \<le> length outp"
    and "out_size lay \<le> length target"
    and "in_size lay \<le> length bk"
  shows "\<exists>lay' back'.
     train_seed (in_size lay) input bk 0 =
       Some (take (in_size lay) input @ drop (in_size lay) bk) \<and>
     train_outputs (in_size lay) (out_size lay) (tf lay) rate input outp target (w lay)
       (take (in_size lay) input @ drop (in_size lay) bk) 0 0 = Some (w lay', back') \<and>
     Layer_train lay rate input outp target bk = Some (lay', back') \<and>
     in_size lay' = in_size lay \<and> out_size lay' = out_size lay \<and> tf lay' = tf lay \<and>
     weights lay' = weights lay \<and>
     (\<forall>out<out_size lay.
        w lay' ! bias_index lay out =
          w lay ! bias_index lay out -
          rate * (derivative (tf lay) (outp ! out) * (outp ! out - target ! out)) \<and>
        (\<forall>i<in_size lay.
           w lay' ! weight_index lay i out =
             w lay ! weight_index lay i out -
             rate * (derivative (tf lay) (outp ! out) * (outp ! out - target ! out)) * input ! i))"
proof -
  let ?n = "in_size lay" and ?m = "out_size lay"
  let ?ws = "map (trained_weight ?n (tf lay) rate input outp target (w lay)) [0..<length (w lay)]"
  have ok: "layer_ok lay" using assms(1) by (simp add: layer_ok_def)
  have len: "length (w lay) = (?n + 1) * ?m" using assms(1) by (simp add: weights_def)
  have seed: "train_seed ?n input bk 0 = Some (take ?n input @ drop ?n bk)"
    using train_seed_eq [of 0 ?n ?n input bk] assms by simp
  obtain back' where tr: "Layer_train lay rate input outp target bk = Some (lay\<lparr>w := ?ws\<rparr>, back')"
    using Layer_train_eq [OF ok assms(2-5), of rate] by blast
  then obtain ws' where loop0: "train_outputs ?n ?m (tf lay) rate input outp target (w lay)
       (take ?n input @ drop ?n bk) 0 0 = Some (ws', back')"
    and upd: "lay\<lparr>w := ws'\<rparr> = lay\<lparr>w := ?ws\<rparr>"
    using seed by (auto simp: Layer_train_def split: bind_splits)
  from upd have "w (lay\<lparr>w := ws'\<rparr>) = w (lay\<lparr>w := ?ws\<rparr>)"
    by (simp only:)
  then have "ws' = ?ws" by simp
  with loop0 have loop: "train_outputs ?n ?m (tf lay) rate input outp target (w lay)
       (take ?n input @ drop ?n bk) 0 0 = Some (?ws, back')"
    by simp
  have vals: "?ws ! bias_index lay out =
          w lay ! bias_index lay out -
          rate * (derivative (tf lay) (outp ! out) * (outp ! out - target ! out)) \<and>
        (\<forall>i<?n. ?ws ! weight_index lay i out =
             w lay ! weight_index lay i out -
             rate * (derivative (tf lay) (outp ! out) * (outp ! out - target ! out)) * input ! i)"
    if "out < ?m" for out
  proof -
    have b: "bias_index lay out < length (w lay)"
      and i: "\<And>i. i < ?n \<Longrightarrow> weight_index lay i out < length (w lay)"
      using index_in_range [OF that, where n = "?n"] len
      by (simp_all add: bias_index_def weight_index_def)
    show ?thesis
      using b i
      by (simp add: trained_weight_bias trained_weight_weight unit_delta_def)
  qed
  show ?thesis
    using seed loop tr vals by (intro exI [of _ "lay\<lparr>w := ?ws\<rparr>"] exI [of _ back'])
      (simp add: weights_def)
qed

theorem Layer_train_updates_witness:
  "let lay = \<lparr>in_size = 2, out_size = 1, tf = Heaviside, w = [0, 1, 2 :: int]\<rparr> in
   weights lay = (in_size lay + 1) * out_size lay \<and>
   in_size lay \<le> length [1, 3 :: int] \<and>
   out_size lay \<le> length [1 :: int] \<and>
   out_size lay \<le> length [0 :: int] \<and>
   in_size lay \<le> length [0, 0 :: int] \<and>
   (\<exists>lay' back'. Layer_train lay 2 [1, 3] [1] [0] [0, 0] = Some (lay', back') \<and>
      w lay' ! 0 = - 2 \<and> w lay' ! 1 = - 1 \<and> w lay' ! 2 = - 4)"
proof -
  let ?lay = "\<lparr>in_size = 2, out_size = 1, tf = Heaviside, w = [0, 1, 2 :: int]\<rparr>"
  have h1: "weights ?lay = (in_size ?lay + 1) * out_size ?lay" by (simp add: weights_def)
  have h2: "in_size ?lay \<le> length [1, 3 :: int]" by simp
  have h3: "out_size ?lay \<le> length [1 :: int]" by simp
  have h4: "out_size ?lay \<le> length [0 :: int]" by simp
  have h5: "in_size ?lay \<le> length [0, 0 :: int]" by simp
  from Layer_train_updates [OF h1 h2 h3 h4 h5, of 2]
  obtain lay' back' where
    tr: "Layer_train ?lay 2 [1, 3] [1] [0] [0, 0] = Some (lay', back')" and
    vals: "\<forall>out<out_size ?lay.
        w lay' ! bias_index ?lay out =
          w ?lay ! bias_index ?lay out -
          2 * (derivative (tf ?lay) ([1] ! out) * ([1] ! out - [0] ! out)) \<and>
        (\<forall>i<in_size ?lay.
           w lay' ! weight_index ?lay i out =
             w ?lay ! weight_index ?lay i out -
             2 * (derivative (tf ?lay) ([1] ! out) * ([1] ! out - [0] ! out)) * [1, 3] ! i)"
    by blast
  from vals have "w lay' ! 0 = - 2 \<and> w lay' ! 1 = - 1 \<and> w lay' ! 2 = - 4"
    by (simp add: bias_index_def weight_index_def Heaviside_def eval_nat_numeral
          All_less_Suc)
  with tr h1 h2 h3 h4 h5 show ?thesis
    unfolding Let_def by blast
qed

text \<open>
  Claim C1, as amended. After \<open>train\<close>, \<open>back[i]\<close> is \<open>input[i]\<close> minus the sum over
  the output units of \<open>delta\<close> times weight \<open>(i, o)\<close> as it is after that weight's own
  update in the call, that is the entry weight minus \<open>rate * delta * input[i]\<close>.
\<close>

theorem Layer_train_back:
  fixes rate :: "'a::ring"
  assumes "weights lay = (in_size lay + 1) * out_size lay"
    and "in_size lay \<le> length input"
    and "out_size lay \<le> length outp"
    and "out_size lay \<le> length target"
    and "in_size lay \<le> length bk"
  shows "\<exists>lay' back'.
     Layer_train lay rate input outp target bk = Some (lay', back') \<and>
     length back' = length bk \<and>
     (\<forall>i<in_size lay.
        back' ! i = input ! i -
          (\<Sum>out<out_size lay.
             derivative (tf lay) (outp ! out) * (outp ! out - target ! out) *
             w lay' ! weight_index lay i out) \<and>
        (\<forall>out<out_size lay.
           w lay' ! weight_index lay i out =
             w lay ! weight_index lay i out -
             rate * (derivative (tf lay) (outp ! out) * (outp ! out - target ! out)) * input ! i))"
proof -
  let ?n = "in_size lay" and ?m = "out_size lay"
  let ?ws = "map (trained_weight ?n (tf lay) rate input outp target (w lay)) [0..<length (w lay)]"
  let ?bk = "map (\<lambda>k. if k < ?n
                    then input ! k - (\<Sum>out<?m. unit_delta (tf lay) outp target out *
                           (w lay ! weight_index lay k out -
                            rate * unit_delta (tf lay) outp target out * input ! k))
                    else bk ! k)
            [0..<length bk]"
  have ok: "layer_ok lay" using assms(1) by (simp add: layer_ok_def)
  have len: "length (w lay) = (?n + 1) * ?m" using assms(1) by (simp add: weights_def)
  have tr: "Layer_train lay rate input outp target bk = Some (lay\<lparr>w := ?ws\<rparr>, ?bk)"
    using Layer_train_eq [OF ok assms(2-5), of rate] .
  have wv: "?ws ! weight_index lay i out =
      w lay ! weight_index lay i out - rate * unit_delta (tf lay) outp target out * input ! i"
    if "i < ?n" "out < ?m" for i out
  proof -
    have "weight_index lay i out < length (w lay)"
      using index_in_range(2) [OF that(2) that(1)] len by (simp add: weight_index_def)
    then show ?thesis using that by (simp add: trained_weight_weight)
  qed
  have bv: "?bk ! i = input ! i -
      (\<Sum>out<?m. unit_delta (tf lay) outp target out * ?ws ! weight_index lay i out)"
    if "i < ?n" for i
  proof -
    have "(\<Sum>out<?m. unit_delta (tf lay) outp target out * ?ws ! weight_index lay i out) =
        (\<Sum>out<?m. unit_delta (tf lay) outp target out *
           (w lay ! weight_index lay i out -
            rate * unit_delta (tf lay) outp target out * input ! i))"
      by (rule sum.cong) (simp_all only: wv [OF that] lessThan_iff)
    then show ?thesis using that assms(5) by simp
  qed
  show ?thesis
    using tr wv bv
    by (intro exI [of _ "lay\<lparr>w := ?ws\<rparr>"] exI [of _ ?bk]) (simp add: unit_delta_def)
qed

theorem Layer_train_back_witness:
  "let lay = \<lparr>in_size = 2, out_size = 1, tf = Heaviside, w = [0, 1, 2 :: int]\<rparr> in
   weights lay = (in_size lay + 1) * out_size lay \<and>
   in_size lay \<le> length [1, 3 :: int] \<and>
   out_size lay \<le> length [1 :: int] \<and>
   out_size lay \<le> length [0 :: int] \<and>
   in_size lay \<le> length [0, 0 :: int] \<and>
   (\<exists>lay' back'. Layer_train lay 2 [1, 3] [1] [0] [0, 0] = Some (lay', back') \<and>
      w lay' ! 1 = - 1 \<and> w lay' ! 2 = - 4 \<and> back' ! 0 = 2 \<and> back' ! 1 = 7)"
proof -
  let ?lay = "\<lparr>in_size = 2, out_size = 1, tf = Heaviside, w = [0, 1, 2 :: int]\<rparr>"
  have h1: "weights ?lay = (in_size ?lay + 1) * out_size ?lay" by (simp add: weights_def)
  have h2: "in_size ?lay \<le> length [1, 3 :: int]" by simp
  have h3: "out_size ?lay \<le> length [1 :: int]" by simp
  have h4: "out_size ?lay \<le> length [0 :: int]" by simp
  have h5: "in_size ?lay \<le> length [0, 0 :: int]" by simp
  from Layer_train_back [OF h1 h2 h3 h4 h5, of 2]
  obtain lay' back' where
    tr: "Layer_train ?lay 2 [1, 3] [1] [0] [0, 0] = Some (lay', back')" and
    vals: "\<forall>i<in_size ?lay.
        back' ! i = [1, 3] ! i -
          (\<Sum>out<out_size ?lay.
             derivative (tf ?lay) ([1] ! out) * ([1] ! out - [0] ! out) *
             w lay' ! weight_index ?lay i out) \<and>
        (\<forall>out<out_size ?lay.
           w lay' ! weight_index ?lay i out =
             w ?lay ! weight_index ?lay i out -
             2 * (derivative (tf ?lay) ([1] ! out) * ([1] ! out - [0] ! out)) * [1, 3] ! i)"
    by blast
  from vals have "w lay' ! 1 = - 1 \<and> w lay' ! 2 = - 4 \<and> back' ! 0 = 2 \<and> back' ! 1 = 7"
    by (simp add: weight_index_def Heaviside_def eval_nat_numeral All_less_Suc lessThan_Suc)
  with tr h1 h2 h3 h4 h5 show ?thesis
    unfolding Let_def by blast
qed

text \<open>
  Claim C1 as stated has \<open>back[i]\<close> built from the weights at entry to the call. On a
  layer with two inputs and one output the call leaves [2, 7] in \<open>back\<close>, where the
  entry weights give 0 and 1.
\<close>

theorem Layer_train_back_counterexample:
  "map_option snd
     (Layer_train \<lparr>in_size = 2, out_size = 1, tf = Heaviside, w = [0, 1, 2 :: int]\<rparr>
        2 [1, 3] [1] [0] [0, 0]) = Some [2, 7] \<and>
   [1, 3] ! 0 - unit_delta Heaviside [1] [0] 0 *
     w \<lparr>in_size = 2, out_size = 1, tf = Heaviside, w = [0, 1, 2 :: int]\<rparr> !
       weight_index \<lparr>in_size = 2, out_size = 1, tf = Heaviside, w = [0, 1, 2 :: int]\<rparr> 0 0
     = (0 :: int) \<and>
   [1, 3] ! 1 - unit_delta Heaviside [1] [0] 0 *
     w \<lparr>in_size = 2, out_size = 1, tf = Heaviside, w = [0, 1, 2 :: int]\<rparr> !
       weight_index \<lparr>in_size = 2, out_size = 1, tf = Heaviside, w = [0, 1, 2 :: int]\<rparr> 1 0
     = (1 :: int)"
  by code_simp

text \<open>
  Claim C5, as amended. A layer constructed with \<open>ins\<close> inputs and \<open>outs\<close> outputs
  whose product \<open>(ins + 1) * outs\<close> is below \<open>2 ^ 64\<close>, so that it does not wrap in
  \<open>size_type\<close>, has \<open>(ins + 1) * outs\<close> weights, at construction and after any
  sequence of \<open>compute\<close> and \<open>train\<close> calls; \<open>bias(out)\<close> addresses position
  \<open>out * (ins + 1)\<close> and \<open>weight(i, out)\<close> position \<open>out * (ins + 1) + i + 1\<close>, and
  these positions are in range and pairwise distinct.
\<close>

theorem Layer_shape:
  fixes f :: "'a::ring TransferFunction"
  assumes "(ins + 1) * outs < 2 ^ 64"
    and "Layer_calls (Layer_Layer ins outs f) calls = Some lay"
  shows "weights (Layer_Layer ins outs f) = (ins + 1) * outs \<and>
     weights lay = (ins + 1) * outs \<and> in_size lay = ins \<and> out_size lay = outs \<and>
     (\<forall>out<outs. bias_offset lay out = out * (ins + 1) \<and> bias_offset lay out < weights lay \<and>
        bias lay out = Some (w lay ! (out * (ins + 1))) \<and>
        (\<forall>out'<outs. bias_offset lay out = bias_offset lay out' \<longrightarrow> out = out') \<and>
        (\<forall>i<ins. weight_offset lay i out = out * (ins + 1) + i + 1 \<and>
           weight_offset lay i out < weights lay \<and>
           weight lay i out = Some (w lay ! (out * (ins + 1) + i + 1)) \<and>
           (\<forall>out'<outs. weight_offset lay i out \<noteq> bias_offset lay out' \<and>
              (\<forall>i'<ins. weight_offset lay i out = weight_offset lay i' out' \<longrightarrow>
                 i = i' \<and> out = out'))))"
proof -
  have c: "weights (Layer_Layer ins outs f) = (ins + 1) * outs"
    "in_size (Layer_Layer ins outs f) = ins" "out_size (Layer_Layer ins outs f) = outs"
    by (simp_all add: Layer_Layer_no_wrap [OF assms(1)] weights_def)
  from Layer_calls_shape [OF assms(2)] c
  have s: "weights lay = (ins + 1) * outs" "in_size lay = ins" "out_size lay = outs"
    by simp_all
  have nw: "(in_size lay + 1) * outs < 2 ^ 64" using assms(1) s by simp
  have bo: "bias_offset lay out = out * (ins + 1)" if "out < outs" for out
    using offsets_no_wrap(1) [OF nw that] s by (simp add: bias_index_def)
  have wo: "weight_offset lay i out = out * (ins + 1) + i + 1" if "out < outs" "i < ins" for i out
    using offsets_no_wrap(2) [OF nw that(1), of i] that(2) s by (simp add: weight_index_def)
  have rb: "out * (ins + 1) < weights lay" if "out < outs" for out
    using index_in_range(1) [OF that, where n = ins] s by simp
  have rw: "out * (ins + 1) + i + 1 < weights lay" if "out < outs" "i < ins" for i out
    using index_in_range(2) [OF that] s by simp
  have b: "out = out'" if "out * (ins + 1) = out' * (ins + 1)" for out out'
    using that by (simp del: mult_Suc_right)
  have d: "out * (ins + 1) + i + 1 \<noteq> out' * (ins + 1)" if "i < ins" for i out out'
    using bias_weight_distinct [OF that, of out out'] .
  have j: "i = i' \<and> out = out'"
    if "i < ins" "i' < ins" "out * (ins + 1) + i + 1 = out' * (ins + 1) + i' + 1"
    for i i' out out'
    using weight_index_inj [OF that] .
  have inner: "weight_offset lay i out = out * (ins + 1) + i + 1 \<and>
           weight_offset lay i out < weights lay \<and>
           weight lay i out = Some (w lay ! (out * (ins + 1) + i + 1)) \<and>
           (\<forall>out'<outs. weight_offset lay i out \<noteq> bias_offset lay out' \<and>
              (\<forall>i'<ins. weight_offset lay i out = weight_offset lay i' out' \<longrightarrow>
                 i = i' \<and> out = out'))"
    if "out < outs" "i < ins" for i out
  proof (intro conjI allI impI)
    show "weight_offset lay i out = out * (ins + 1) + i + 1"
      using wo [OF that] .
    show "weight_offset lay i out < weights lay"
      using wo [OF that] rw [OF that] by simp
    show "weight lay i out = Some (w lay ! (out * (ins + 1) + i + 1))"
      using wo [OF that] rw [OF that] by (simp add: weight_def weights_def)
    show "weight_offset lay i out \<noteq> bias_offset lay out'" if "out' < outs" for out'
      using wo [OF \<open>out < outs\<close> \<open>i < ins\<close>] bo [OF that] d [OF \<open>i < ins\<close>, of out out']
      by simp
    show "i = i'"
      if "out' < outs" "i' < ins" "weight_offset lay i out = weight_offset lay i' out'"
      for i' out'
      using j [OF \<open>i < ins\<close> that(2), of out out'] wo [OF \<open>out < outs\<close> \<open>i < ins\<close>]
        wo [OF that(1,2)] that(3) by simp
    show "out = out'"
      if "out' < outs" "i' < ins" "weight_offset lay i out = weight_offset lay i' out'"
      for i' out'
      using j [OF \<open>i < ins\<close> that(2), of out out'] wo [OF \<open>out < outs\<close> \<open>i < ins\<close>]
        wo [OF that(1,2)] that(3) by simp
  qed
  have outer: "bias_offset lay out = out * (ins + 1) \<and> bias_offset lay out < weights lay \<and>
        bias lay out = Some (w lay ! (out * (ins + 1))) \<and>
        (\<forall>out'<outs. bias_offset lay out = bias_offset lay out' \<longrightarrow> out = out') \<and>
        (\<forall>i<ins. weight_offset lay i out = out * (ins + 1) + i + 1 \<and>
           weight_offset lay i out < weights lay \<and>
           weight lay i out = Some (w lay ! (out * (ins + 1) + i + 1)) \<and>
           (\<forall>out'<outs. weight_offset lay i out \<noteq> bias_offset lay out' \<and>
              (\<forall>i'<ins. weight_offset lay i out = weight_offset lay i' out' \<longrightarrow>
                 i = i' \<and> out = out')))"
    if "out < outs" for out
  proof (intro conjI)
    show "bias_offset lay out = out * (ins + 1)"
      using bo [OF that] .
    show "bias_offset lay out < weights lay"
      using bo [OF that] rb [OF that] by simp
    show "bias lay out = Some (w lay ! (out * (ins + 1)))"
      using bo [OF that] rb [OF that] by (simp add: bias_def weights_def)
    show "\<forall>out'<outs. bias_offset lay out = bias_offset lay out' \<longrightarrow> out = out'"
    proof (intro allI impI)
      fix out' assume "out' < outs" "bias_offset lay out = bias_offset lay out'"
      then show "out = out'"
        using bo [OF that] bo [of out'] b [of out out'] by simp
    qed
    show "\<forall>i<ins. weight_offset lay i out = out * (ins + 1) + i + 1 \<and>
           weight_offset lay i out < weights lay \<and>
           weight lay i out = Some (w lay ! (out * (ins + 1) + i + 1)) \<and>
           (\<forall>out'<outs. weight_offset lay i out \<noteq> bias_offset lay out' \<and>
              (\<forall>i'<ins. weight_offset lay i out = weight_offset lay i' out' \<longrightarrow>
                 i = i' \<and> out = out'))"
      using inner [OF that] by blast
  qed
  show ?thesis
    using c(1) s outer by blast
qed

theorem Layer_shape_witness:
  "(1 + 1) * 1 < (2 :: nat) ^ 64 \<and>
   (\<exists>lay. Layer_calls (Layer_Layer 1 1 (Heaviside :: int TransferFunction))
          [Compute [1] [0], Train 1 [1] [1] [0] [0]] = Some lay \<and>
     weights (Layer_Layer 1 1 (Heaviside :: int TransferFunction)) = 2 \<and>
     weights lay = 2 \<and> in_size lay = 1 \<and> out_size lay = 1 \<and>
     bias_offset lay 0 = 0 \<and> bias_offset lay 0 < weights lay \<and>
     weight_offset lay 0 0 = 1 \<and> weight_offset lay 0 0 < weights lay \<and>
     weight_offset lay 0 0 \<noteq> bias_offset lay 0)"
proof -
  have h1: "((1 :: nat) + 1) * 1 < 2 ^ 64" by simp
  have "\<not> Option.is_none
     (Layer_calls \<lparr>in_size = 1, out_size = 1, tf = Heaviside :: int TransferFunction, w = [0, 0]\<rparr>
        [Compute [1] [0], Train 1 [1] [1] [0] [0]])"
    by code_simp
  then obtain lay where h: "Layer_calls (Layer_Layer 1 1 (Heaviside :: int TransferFunction))
        [Compute [1] [0], Train 1 [1] [1] [0] [0]] = Some lay"
    by (auto simp: Option.is_none_def Layer_Layer_def wrap_def)
  from Layer_shape [OF h1 h] show ?thesis
    using h h1 by simp
qed

text \<open>
  Claim C5 as stated speaks of every \<open>ins\<close> and \<open>outs\<close>. Constructed with
  \<open>2 ^ 64 - 1\<close> inputs and 5 outputs, where \<open>inputs + 1\<close> wraps to 0, the layer has no
  weights at all, and \<open>bias(0)\<close> is out of range.
\<close>

theorem Layer_shape_counterexample:
  "weights (Layer_Layer 18446744073709551615 5 (Heaviside :: int TransferFunction)) = 0 \<and>
   (18446744073709551615 + 1) * 5 = (92233720368547758080 :: nat) \<and>
   bias (Layer_Layer 18446744073709551615 5 (Heaviside :: int TransferFunction)) 0 = None"
  by (simp add: Layer_Layer_def weights_def wrap_def bias_def bias_offset_def deref_def)

section \<open>Claims about the buffers and the network\<close>

lemma beginA_length: "length (A (beginA s buf)) = max (length (A buf)) s"
  by (simp add: beginA_def resize_def)

lemma beginB_length: "length (B (beginB s buf)) = max (length (B buf)) s"
  by (simp add: beginB_def resize_def)

lemma beginA_B [simp]: "B (beginA s buf) = B buf"
  by (simp add: beginA_def)

lemma beginB_A [simp]: "A (beginB s buf) = A buf"
  by (simp add: beginB_def)









lemma activations_length [simp]: "length (activations lay x) = out_size lay"
  by (simp add: activations_def)

lemma activations_cong:
  assumes "\<And>i. i < in_size lay \<Longrightarrow> x ! i = y ! i"
  shows "activations lay x = activations lay y"
  unfolding activations_def using assms by simp

lemma activations_take: "activations lay (take (in_size lay) x) = activations lay x"
  by (rule activations_cong) simp

lemma feed_snoc: "feed (xs @ [lay]) x = activations lay (feed xs x)"
  by (induction xs arbitrary: x) simp_all

lemma chained_nth:
  "chained ls \<Longrightarrow> Suc k < length ls \<Longrightarrow> out_size (ls ! k) = in_size (ls ! Suc k)"
proof (induction ls arbitrary: k rule: chained.induct)
  case (3 lay nxt rest)
  then show ?case by (cases k) auto
qed simp_all

lemma layer_step:
  assumes "list_all layer_ok ls" and "chained ls" and "Suc k < length ls"
    and "out_size (ls ! k) \<le> length c"
    and "take (out_size (ls ! k)) c = feed (take (Suc k) ls) input"
    and "out_size (ls ! Suc k) \<le> length outp"
  shows "Layer_compute (ls ! Suc k) c outp =
      Some (feed (take (Suc (Suc k)) ls) input @ drop (out_size (ls ! Suc k)) outp)"
proof -
  let ?lay = "ls ! Suc k"
  have ok: "layer_ok ?lay"
    using assms(1,3) by (simp add: list_all_length)
  have sz: "in_size ?lay = out_size (ls ! k)"
    using chained_nth [OF assms(2,3)] by simp
  have "activations ?lay c = activations ?lay (take (in_size ?lay) c)"
    by (simp add: activations_take)
  also have "\<dots> = activations ?lay (feed (take (Suc k) ls) input)"
    using assms(5) sz by simp
  also have "\<dots> = feed (take (Suc (Suc k)) ls) input"
    using assms(3) by (simp add: take_Suc_conv_app_nth [of "Suc k"] feed_snoc)
  finally have "activations ?lay c = feed (take (Suc (Suc k)) ls) input" .
  then show ?thesis
    using Layer_compute_eq [OF ok, of c outp] assms(4,6) sz by simp
qed

lemma compute_loop_eq:
  assumes "list_all layer_ok ls" and "chained ls" and "Suc l_last = length ls"
  shows "l_iter + r = l_last \<Longrightarrow> 0 < r \<Longrightarrow>
     out_size (ls ! l_iter) \<le> length (A buffer) \<Longrightarrow>
     take (out_size (ls ! l_iter)) (A buffer) = feed (take (Suc l_iter) ls) input \<Longrightarrow>
     \<exists>b' buffer'. compute_loop ls l_last l_iter InA buffer = Some (l_last, b', buffer') \<and>
        out_size (ls ! (l_last - 1)) \<le> length (scratch_of b' buffer') \<and>
        take (out_size (ls ! (l_last - 1))) (scratch_of b' buffer') = feed (take l_last ls) input"
proof (induction r arbitrary: l_iter buffer rule: less_induct)
  case (less r)
  show ?case
  proof (cases "r = 1")
    case True
    with less.prems have "Suc l_iter = l_last" by simp
    then show ?thesis
      using less.prems
      by (subst compute_loop.simps) (auto simp: scratch_of_def)
  next
    case False
    with less.prems have ne: "Suc l_iter \<noteq> l_last" and lt: "Suc l_iter < length ls"
      using assms(3) by auto
    let ?lay = "ls ! Suc l_iter"
    let ?b1 = "beginB (outputs ?lay) buffer"
    let ?out = "feed (take (Suc (Suc l_iter)) ls) input @ drop (out_size ?lay) (B ?b1)"
    let ?b2 = "?b1\<lparr>B := ?out\<rparr>"
    have lenB: "out_size ?lay \<le> length (B ?b1)"
      by (simp add: beginB_length outputs_def)
    have c1: "Layer_compute ?lay (scratch_of InA ?b1) (B ?b1) = Some ?out"
      using layer_step [OF assms(1,2) lt less.prems(3,4) lenB]
      by (simp add: scratch_of_def)
    have feedlen: "length (feed (take (Suc (Suc l_iter)) ls) input) = out_size ?lay"
      using lt by (simp add: take_Suc_conv_app_nth [of "Suc l_iter"] feed_snoc)
    have P2: "out_size ?lay \<le> length (B ?b2)"
      "take (out_size ?lay) (B ?b2) = feed (take (Suc (Suc l_iter)) ls) input"
      using feedlen by simp_all
    show ?thesis
    proof (cases "r = 2")
      case True
      with less.prems have e: "Suc (Suc l_iter) = l_last" by simp
      then have "compute_loop ls l_last l_iter InA buffer = Some (l_last, InB, ?b2)"
        using ne lt c1 by (subst compute_loop.simps) (simp add: Let_def)
      then show ?thesis
        using P2 e by (auto simp: scratch_of_def)
    next
      case False
      with \<open>r \<noteq> 1\<close> less.prems have ne2: "Suc (Suc l_iter) \<noteq> l_last"
        and lt2: "Suc (Suc l_iter) < length ls" and r3: "3 \<le> r"
        using assms(3) by auto
      let ?lay' = "ls ! Suc (Suc l_iter)"
      let ?b3 = "beginA (outputs ?lay') ?b2"
      let ?out' = "feed (take (Suc (Suc (Suc l_iter))) ls) input @ drop (out_size ?lay') (A ?b3)"
      let ?b4 = "?b3\<lparr>A := ?out'\<rparr>"
      have lenA: "out_size ?lay' \<le> length (A ?b3)"
        by (simp add: beginA_length outputs_def)
      have P2': "out_size ?lay \<le> length (scratch_of InB ?b3)"
        "take (out_size ?lay) (scratch_of InB ?b3) = feed (take (Suc (Suc l_iter)) ls) input"
        using P2 by (simp_all add: scratch_of_def)
      have c2: "Layer_compute ?lay' (scratch_of InB ?b3) (A ?b3) = Some ?out'"
        by (rule layer_step [OF assms(1,2) lt2 P2' lenA])
      have feedlen': "length (feed (take (Suc (Suc (Suc l_iter))) ls) input) = out_size ?lay'"
        using lt2 by (simp add: take_Suc_conv_app_nth [of "Suc (Suc l_iter)"] feed_snoc)
      have P4: "out_size ?lay' \<le> length (A ?b4)"
        "take (out_size ?lay') (A ?b4) = feed (take (Suc (Suc (Suc l_iter))) ls) input"
        using feedlen' by simp_all
      have "\<exists>b' buffer'. compute_loop ls l_last (Suc (Suc l_iter)) InA ?b4 =
            Some (l_last, b', buffer') \<and>
          out_size (ls ! (l_last - 1)) \<le> length (scratch_of b' buffer') \<and>
          take (out_size (ls ! (l_last - 1))) (scratch_of b' buffer') = feed (take l_last ls) input"
        using less.prems r3 by (intro less.IH [of "r - 2"] P4) auto
      moreover have "compute_loop ls l_last l_iter InA buffer =
          compute_loop ls l_last (Suc (Suc l_iter)) InA ?b4"
        using ne lt c1 ne2 lt2 c2
        by (subst compute_loop.simps) (simp add: Let_def)
      ultimately show ?thesis by simp
    qed
  qed
qed

lemma chain_compute_eq:
  "list_all layer_ok ls \<Longrightarrow> chained ls \<Longrightarrow> ls \<noteq> [] \<Longrightarrow> in_size (hd ls) \<le> length input \<Longrightarrow>
   out_size (last ls) \<le> length outp \<Longrightarrow>
   chain_compute ls input outp = Some (feed ls input @ drop (out_size (last ls)) outp)"
proof (induction ls input outp rule: chain_compute.induct)
  case (1 input outp)
  then show ?case by simp
next
  case (2 lay input outp)
  then show ?case by (simp add: Layer_compute_eq)
next
  case (3 lay nxt rest input outp)
  have mid: "Layer_compute lay input (replicate (out_size lay) 0) = Some (activations lay input)"
    using 3(2,5) by (simp add: Layer_compute_eq)
  have "chain_compute (nxt # rest) (activations lay input) outp =
      Some (feed (nxt # rest) (activations lay input) @ drop (out_size (last (nxt # rest))) outp)"
    using 3(2-) by (intro 3(1) [OF mid]) auto
  with mid show ?case by simp
qed

lemma Network_compute_eq:
  assumes "network_ok net" and "in_size (hd (l net)) \<le> length input"
    and "out_size (last (l net)) \<le> length outp"
  shows "\<exists>buffer'. Network_compute net input outp buffer =
      Some (feed (l net) input @ drop (out_size (last (l net))) outp, buffer')"
proof -
  let ?ls = "l net"
  from assms(1) have ne: "?ls \<noteq> []" and ok: "list_all layer_ok ?ls" and ch: "chained ?ls"
    by (simp_all add: network_ok_def)
  let ?last = "length ?ls - 1"
  have pv: "prev_it (length ?ls) = Some ?last"
    using ne by (simp add: prev_it_def)
  have d0: "deref ?ls 0 = Some (hd ?ls)"
    using ne by (simp add: hd_conv_nth)
  have ok0: "layer_ok (hd ?ls)"
    using ne ok by (cases ?ls) simp_all
  show ?thesis
  proof (cases "?last = 0")
    case True
    then obtain lay where ls: "?ls = [lay]"
      using ne by (cases ?ls) auto
    then show ?thesis
      using pv d0 ok0 assms(2,3)
      by (simp add: Network_compute_def Layer_compute_eq)
  next
    case False
    then have two: "Suc 0 < length ?ls" by simp
    have sl: "Suc ?last = length ?ls" using ne by simp
    let ?lay = "hd ?ls"
    let ?b1 = "beginA (outputs ?lay) buffer"
    let ?out = "activations ?lay input @ drop (out_size ?lay) (A ?b1)"
    let ?b2 = "?b1\<lparr>A := ?out\<rparr>"
    have c0: "Layer_compute ?lay input (A ?b1) = Some ?out"
      using ok0 assms(2) by (intro Layer_compute_eq) (simp_all add: beginA_length outputs_def)
    have hd0: "?ls ! 0 = ?lay" using ne by (simp add: hd_conv_nth)
    have t1: "take (Suc 0) ?ls = [?lay]"
      using ne by (cases ?ls) simp_all
    have P: "out_size (?ls ! 0) \<le> length (A ?b2)"
      "take (out_size (?ls ! 0)) (A ?b2) = feed (take (Suc 0) ?ls) input"
      by (simp_all add: hd0 t1)
    obtain b' buffer' where
      loop: "compute_loop ?ls ?last 0 InA ?b2 = Some (?last, b', buffer')"
      and Q: "out_size (?ls ! (?last - 1)) \<le> length (scratch_of b' buffer')"
        "take (out_size (?ls ! (?last - 1))) (scratch_of b' buffer') = feed (take ?last ?ls) input"
      using compute_loop_eq [OF ok ch sl, of 0 ?last ?b2 input] False P by auto
    have s: "Suc (?last - 1) = ?last" using False by simp
    have fin: "Layer_compute (?ls ! ?last) (scratch_of b' buffer') outp =
        Some (feed (take (Suc ?last) ?ls) input @ drop (out_size (?ls ! ?last)) outp)"
      using layer_step [OF ok ch, of "?last - 1" "scratch_of b' buffer'" input outp]
        Q assms(3) ne s by (simp add: last_conv_nth)
    have dl: "deref ?ls ?last = Some (?ls ! ?last)" using ne by simp
    have "Network_compute net input outp buffer =
        Some (feed (take (Suc ?last) ?ls) input @ drop (out_size (?ls ! ?last)) outp, buffer')"
      using pv False d0 c0 loop dl fin
      by (simp add: Network_compute_def Let_def)
    then show ?thesis
      using ne sl by (auto simp: last_conv_nth)
  qed
qed

text \<open>
  Claim C6. For a network and an input, \<open>Network::compute\<close> writes the same output as
  composing \<open>Layer::compute\<close> layer by layer through explicit intermediate buffers,
  layer 0 reading the external input and the last layer writing the caller's output;
  for two layers this is \<open>Layer0::compute\<close> into one intermediate buffer and
  \<open>Layer1::compute\<close> from it. The network is one the constructor can build (not
  empty, weight containers of the constructed length, sizes chained), and input and
  output have the entries the first and last layer need.
\<close>

theorem Network_compute_chain:
  assumes "network_ok net"
    and "in_size (hd (l net)) \<le> length input"
    and "out_size (last (l net)) \<le> length outp"
  shows "map_option fst (Network_compute net input outp buffer) =
       chain_compute (l net) input outp \<and>
     (\<exists>out. chain_compute (l net) input outp = Some out) \<and>
     (\<forall>lay0 lay1. l net = [lay0, lay1] \<longrightarrow>
        map_option fst (Network_compute net input outp buffer) =
          do {
            mid \<leftarrow> Layer_compute lay0 input (replicate (out_size lay0) 0);
            Layer_compute lay1 mid outp
          })"
proof -
  from assms(1) have "l net \<noteq> []" "list_all layer_ok (l net)" "chained (l net)"
    by (simp_all add: network_ok_def)
  then have c: "chain_compute (l net) input outp =
      Some (feed (l net) input @ drop (out_size (last (l net))) outp)"
    using assms(2,3) by (simp add: chain_compute_eq)
  obtain buffer' where n: "Network_compute net input outp buffer =
      Some (feed (l net) input @ drop (out_size (last (l net))) outp, buffer')"
    using Network_compute_eq [OF assms] by blast
  have e: "map_option fst (Network_compute net input outp buffer) =
      chain_compute (l net) input outp"
    using c n by simp
  have "map_option fst (Network_compute net input outp buffer) =
          do {
            mid \<leftarrow> Layer_compute lay0 input (replicate (out_size lay0) 0);
            Layer_compute lay1 mid outp
          }" if "l net = [lay0, lay1]" for lay0 lay1
    using e that by simp
  with e c show ?thesis by blast
qed

theorem Network_compute_chain_witness:
  "let net = \<lparr>l = [\<lparr>in_size = 1, out_size = 2, tf = Heaviside, w = [- 1, 1, 0, - 1 :: int]\<rparr>,
                    \<lparr>in_size = 2, out_size = 1, tf = Heaviside, w = [0, 1, - 1]\<rparr>]\<rparr>;
       buffer = \<lparr>A = [5, 5, 5], B = []\<rparr> in
   network_ok net \<and> in_size (hd (l net)) \<le> length [1 :: int] \<and>
   out_size (last (l net)) \<le> length [7 :: int] \<and>
   map_option fst (Network_compute net [1] [7] buffer) = Some [1] \<and>
   chain_compute (l net) [1] [7] = Some [1]"
proof -
  let ?net = "\<lparr>l = [\<lparr>in_size = 1, out_size = 2, tf = Heaviside, w = [- 1, 1, 0, - 1 :: int]\<rparr>,
                    \<lparr>in_size = 2, out_size = 1, tf = Heaviside, w = [0, 1, - 1]\<rparr>]\<rparr>"
  have h1: "network_ok ?net"
    by (simp add: network_ok_def layer_ok_def weights_def)
  have h2: "in_size (hd (l ?net)) \<le> length [1 :: int]" by simp
  have h3: "out_size (last (l ?net)) \<le> length [7 :: int]" by simp
  have v: "chain_compute (l ?net) [1] [7] = Some [1]"
    by code_simp
  from Network_compute_chain [OF h1 h2 h3, of "\<lparr>A = [5, 5, 5], B = []\<rparr>"] v h1 h2 h3
  show ?thesis
    unfolding Let_def by simp
qed

text \<open>
  Claim C10. The output of \<open>Network::compute\<close> depends on the weights and the input
  only: two calls that differ in the buffer they are handed write the same output,
  and so does the overload that takes no buffer.
\<close>

theorem Network_compute_buffer_independent:
  assumes "network_ok net"
    and "in_size (hd (l net)) \<le> length input"
    and "out_size (last (l net)) \<le> length outp"
  shows "map_option fst (Network_compute net input outp buffer1) =
       map_option fst (Network_compute net input outp buffer2) \<and>
     Network_compute_temp net input outp =
       map_option fst (Network_compute net input outp buffer1) \<and>
     (\<exists>out. Network_compute_temp net input outp = Some out)"
proof -
  let ?out = "feed (l net) input @ drop (out_size (last (l net))) outp"
  have f: "map_option fst (Network_compute net input outp buffer) = Some ?out" for buffer
    using Network_compute_eq [OF assms, of buffer] by auto
  show ?thesis
    by (simp only: Network_compute_temp_def f) simp
qed

theorem Network_compute_buffer_independent_witness:
  "let net = \<lparr>l = [\<lparr>in_size = 1, out_size = 2, tf = Heaviside, w = [- 1, 1, 0, - 1 :: int]\<rparr>,
                    \<lparr>in_size = 2, out_size = 2, tf = Heaviside, w = [0, 1, - 1, - 1, 0, 0]\<rparr>,
                    \<lparr>in_size = 2, out_size = 1, tf = Heaviside, w = [0, 1, - 1]\<rparr>]\<rparr> in
   network_ok net \<and> in_size (hd (l net)) \<le> length [1 :: int] \<and>
   out_size (last (l net)) \<le> length [7 :: int] \<and>
   map_option fst (Network_compute net [1] [7] \<lparr>A = [5, 5, 5], B = [3]\<rparr>) = Some [1] \<and>
   map_option fst (Network_compute net [1] [7] \<lparr>A = [], B = [8, 8, 8, 8]\<rparr>) = Some [1] \<and>
   Network_compute_temp net [1] [7] = Some [1]"
proof -
  let ?net = "\<lparr>l = [\<lparr>in_size = 1, out_size = 2, tf = Heaviside, w = [- 1, 1, 0, - 1 :: int]\<rparr>,
                    \<lparr>in_size = 2, out_size = 2, tf = Heaviside, w = [0, 1, - 1, - 1, 0, 0]\<rparr>,
                    \<lparr>in_size = 2, out_size = 1, tf = Heaviside, w = [0, 1, - 1]\<rparr>]\<rparr>"
  have h1: "network_ok ?net"
    by (simp add: network_ok_def layer_ok_def weights_def)
  have h2: "in_size (hd (l ?net)) \<le> length [1 :: int]" by simp
  have h3: "out_size (last (l ?net)) \<le> length [7 :: int]" by simp
  have v: "Network_compute_temp ?net [1] [7] = Some [1]"
    by code_simp
  from Network_compute_buffer_independent [OF h1 h2 h3, of "\<lparr>A = [5, 5, 5], B = [3]\<rparr>"
      "\<lparr>A = [], B = [8, 8, 8, 8]\<rparr>"] v h1 h2 h3
  show ?thesis
    unfolding Let_def by simp
qed

lemma trained_weight_cong:
  assumes "\<And>out. out < m \<Longrightarrow> out1 ! out = out2 ! out" and "j < (n + 1) * m"
  shows "trained_weight n f rate input out1 target ws j =
         trained_weight n f rate input out2 target ws j"
proof -
  have "j div (n + 1) < m"
    using assms(2) by (simp add: less_mult_imp_div_less mult.commute)
  then show ?thesis
    using assms(1) by (simp add: trained_weight_def unit_delta_def)
qed

lemma train_forward_single:
  "train_forward [lay] (Suc 0) 0 0 buffer = Some (Suc 0, 0, buffer)"
  by (subst train_forward.simps) simp

text \<open>
  Claim C8. For a network of exactly one layer, \<open>Network::compute\<close> is that layer's
  \<open>compute\<close> on the same input and output, and \<open>Network::train\<close> leaves the layer
  that computing the layer's output and then calling \<open>Layer::train\<close> with the rate,
  the input, that output, the target and a scratch \<open>back\<close> buffer leaves, whatever
  the scratch containers held.
\<close>

theorem single_layer_network:
  fixes rate :: "'a::ring"
  assumes "l net = [lay]"
    and "weights lay = (in_size lay + 1) * out_size lay"
    and "in_size lay \<le> length input"
    and "out_size lay \<le> length target"
    and "out_size lay \<le> length out0"
    and "in_size lay \<le> length back0"
  shows "Network_compute net input outp cbuf =
       map_option (\<lambda>out. (out, cbuf)) (Layer_compute lay input outp) \<and>
     (\<exists>net' buffer' out lay' back'.
        Network_train net rate input target buffer = Some (net', buffer') \<and>
        Layer_compute lay input out0 = Some out \<and>
        Layer_train lay rate input out target back0 = Some (lay', back') \<and>
        l net' = [lay'])"
proof -
  let ?n = "in_size lay" and ?m = "out_size lay"
  have ok: "layer_ok lay" using assms(2) by (simp add: layer_ok_def)
  have len: "length (w lay) = (?n + 1) * ?m" using assms(2) by (simp add: weights_def)
  have comp: "Network_compute net input outp cbuf =
       map_option (\<lambda>out. (out, cbuf)) (Layer_compute lay input outp)"
    using assms(1)
    by (cases "Layer_compute lay input outp") (simp_all add: Network_compute_def prev_it_def)
  \<comment> \<open>the direct calls\<close>
  let ?out = "activations lay input @ drop ?m out0"
  have d1: "Layer_compute lay input out0 = Some ?out"
    using ok assms(3,5) by (rule Layer_compute_eq)
  let ?W = "\<lambda>outp. map (trained_weight ?n (tf lay) rate input outp target (w lay))
                      [0..<length (w lay)]"
  obtain back' where d2: "Layer_train lay rate input ?out target back0 =
      Some (lay\<lparr>w := ?W ?out\<rparr>, back')"
    using Layer_train_eq [OF ok assms(3) _ assms(4,6), of ?out rate] by simp
  \<comment> \<open>the network's call\<close>
  let ?b0 = "if length buffer < length (l net)
             then resize empty_buffer buffer (length (l net)) else buffer"
  have b0: "0 < length ?b0" using assms(1) by (simp add: resize_def)
  let ?slot = "?b0 ! 0"
  let ?slot1 = "beginA (outputs lay) ?slot"
  let ?outA = "activations lay input @ drop ?m (A ?slot1)"
  have n1: "Layer_compute lay input (A ?slot1) = Some ?outA"
    using ok assms(3) by (intro Layer_compute_eq) (simp_all add: beginA_length outputs_def)
  let ?b1 = "?b0[0 := ?slot1\<lparr>A := ?outA\<rparr>]"
  let ?slot2 = "beginB (inputs lay) (?slot1\<lparr>A := ?outA\<rparr>)"
  have A2: "A ?slot2 = ?outA" by simp
  obtain backN where n2: "Layer_train lay rate input ?outA target (B ?slot2) =
      Some (lay\<lparr>w := ?W ?outA\<rparr>, backN)"
    using Layer_train_eq [OF ok assms(3) _ assms(4), of ?outA "B ?slot2" rate]
    by (simp add: beginB_length inputs_def)
  have W: "?W ?outA = ?W ?out"
  proof (rule map_cong [OF refl])
    fix j assume "j \<in> set [0..<length (w lay)]"
    then have j: "j < (?n + 1) * ?m" using len by simp
    show "trained_weight ?n (tf lay) rate input ?outA target (w lay) j =
          trained_weight ?n (tf lay) rate input ?out target (w lay) j"
      by (rule trained_weight_cong [OF _ j]) (simp add: nth_append)
  qed
  have call: "train_call [lay] ?b1 0 0 rate input target =
      Some ([lay\<lparr>w := ?W ?out\<rparr>], ?b1[0 := ?slot2\<lparr>B := backN\<rparr>])"
    using b0 n2 A2 W by (simp add: train_call_def Let_def)
  have "Network_train net rate input target buffer =
      Some (net\<lparr>l := [lay\<lparr>w := ?W ?out\<rparr>]\<rparr>, ?b1[0 := ?slot2\<lparr>B := backN\<rparr>])"
    using assms(1) b0 n1 call
    by (simp add: Network_train_def Let_def train_forward_single prev_it_def)
  with comp d1 d2 show ?thesis by simp
qed

theorem single_layer_network_witness:
  "let lay = \<lparr>in_size = 2, out_size = 1, tf = Heaviside, w = [0, 1, 2 :: int]\<rparr>;
       net = \<lparr>l = [lay]\<rparr> in
   l net = [lay] \<and> weights lay = (in_size lay + 1) * out_size lay \<and>
   in_size lay \<le> length [1, 3 :: int] \<and> out_size lay \<le> length [0 :: int] \<and>
   out_size lay \<le> length [9 :: int] \<and> in_size lay \<le> length [0, 0 :: int] \<and>
   Network_compute net [1, 3] [7] empty_buffer = Some ([1], empty_buffer) \<and>
   (\<exists>net' buffer' lay' back'.
      Network_train net 2 [1, 3] [0] [] = Some (net', buffer') \<and>
      Layer_compute lay [1, 3] [9] = Some [1] \<and>
      Layer_train lay 2 [1, 3] [1] [0] [0, 0] = Some (lay', back') \<and>
      l net' = [lay'])"
proof -
  let ?lay = "\<lparr>in_size = 2, out_size = 1, tf = Heaviside, w = [0, 1, 2 :: int]\<rparr>"
  let ?net = "\<lparr>l = [?lay]\<rparr>"
  have h1: "l ?net = [?lay]" by simp
  have h2: "weights ?lay = (in_size ?lay + 1) * out_size ?lay" by (simp add: weights_def)
  have h3: "in_size ?lay \<le> length [1, 3 :: int]" by simp
  have h4: "out_size ?lay \<le> length [0 :: int]" by simp
  have h5: "out_size ?lay \<le> length [9 :: int]" by simp
  have h6: "in_size ?lay \<le> length [0, 0 :: int]" by simp
  have v: "Layer_compute ?lay [1, 3] [9] = Some [1]" by code_simp
  have v': "Layer_compute ?lay [1, 3] [7] = Some [1]" by code_simp
  from single_layer_network [OF h1 h2 h3 h4 h5 h6, of "[7]" empty_buffer 2 "[]"]
  have "Network_compute ?net [1, 3] [7] empty_buffer = Some ([1], empty_buffer)"
    and "\<exists>net' buffer' lay' back'.
      Network_train ?net 2 [1, 3] [0] [] = Some (net', buffer') \<and>
      Layer_train ?lay 2 [1, 3] [1] [0] [0, 0] = Some (lay', back') \<and>
      l net' = [lay']"
    unfolding v v' by auto
  with h1 h2 h3 h4 h5 h6 v show ?thesis
    unfolding Let_def by blast
qed

text \<open>
  Claim C2 asks that for three or more layers every interior layer is trained with
  the previous layer's stored output as its input, and the first layer with the
  external input. On the network constructed with one input and three layers of one
  unit each, trained with rate 1 on input [5] and target [0], the call leaves the
  first layer with its constructed weights [0, 0], and the middle layer with the
  weights [1, 5]: it was trained on the external input [5]. Trained on the first
  layer's stored output [1], as the claim has it, the middle layer would have the
  weights [1, 1].
\<close>

theorem Network_train_three_layers:
  "map_option (\<lambda>(net', buffer'). (map w (l net'), map A buffer', map B buffer'))
     (Network_train (Network_Network 1 [1, 1, 1] (Heaviside :: int TransferFunction))
        1 [5] [0] []) =
   Some ([[0, 0], [1, 5], [- 1, - 1]], [[1], [1], [1]], [[], [10], [2]]) \<and>
   map_option (\<lambda>(lay', back'). (w lay', back'))
     (Layer_train (Layer_Layer 1 1 (Heaviside :: int TransferFunction)) 1 [1] [1] [2] [0]) =
   Some ([1, 1], [2])"
  unfolding Network_Network_units Layer_Layer_unit by code_simp






end
